theory Spec2Isabelle
  imports Complex_Main "HOL-Library.Sublist"
begin

section \<open>Data model\<close>

text \<open>
  Values that cross the untyped boundary of the program (the reasoning backend's
  response, a call's arguments, a capability's result) are JavaScript values. Numbers
  are kept to the integers; functions and symbols do not occur in the data the
  executor inspects.
\<close>

datatype jsval =
    JUndefined
  | JNull
  | JBool bool
  | JNum int
  | JStr string
  | JArr "jsval list"
  | JObj "(string \<times> jsval) list"

datatype status = Pending | Running | Completed | Failed

text \<open>What a \<^verbatim>\<open>throw\<close> of the program carries, by the place that raises it.\<close>

datatype error =
    ToolNotFound jsval
  | InvokeError string
  | SaveError string
  | ObserverError string
  | TypeError
  | BackendError string

record ProposedCall =
  tool :: jsval
  args :: jsval

record ToolCallStatus = ProposedCall +
  status :: status

record Task =
  task_id :: string
  description :: string
  toolCalls :: "ToolCallStatus list option"

record Entity =
  entity_type :: string
  entity_value :: string

record Understanding =
  entities :: "Entity list"

text \<open>
  A capability handle. \<open>schema\<close> is \<open>Some shape\<close> when the schema is an object with a
  \<^verbatim>\<open>shape\<close> property; the shape lists each argument with its optional description.
  What \<^verbatim>\<open>invoke\<close> answers is decided by the environment, see \<open>event\<close> below.
\<close>

record Tool =
  name :: string
  tool_description :: string
  schema :: "(string \<times> string option) list option"

record ContextEntry =
  entry_tool :: jsval
  entry_args :: jsval
  entry_result :: jsval
  entry_queryId :: string

text \<open>
  \<open>contextManager\<close> is the \<^verbatim>\<open>saveContext\<close> method of the storage collaborator, a
  parameter: given the entry and the store it answers the new store, or throws
  (\<open>Inl\<close>).
\<close>

record ToolExecutor =
  tools :: "Tool list"
  contextManager :: "ContextEntry \<Rightarrow> ContextEntry list \<Rightarrow> string + ContextEntry list"
  maxConcurrentToolCalls :: "int option"

text \<open>\<^verbatim>\<open>new Map(options.tools.map(t => [t.name, t]))\<close>: a later tool of the same name wins.\<close>

definition toolMap :: "ToolExecutor \<Rightarrow> string \<rightharpoonup> Tool" where
  "toolMap ex = map_of (rev (map (\<lambda>t. (name t, t)) (tools ex)))"

text \<open>\<^verbatim>\<open>Map.get\<close> with a key that is not a string finds nothing.\<close>

definition toolMap_get :: "ToolExecutor \<Rightarrow> jsval \<Rightarrow> Tool option" where
  "toolMap_get ex k = (case k of JStr n \<Rightarrow> toolMap ex n | _ \<Rightarrow> None)"

datatype cb_result = Returns | Throws string

record ToolExecutorCallbacks =
  onToolCallUpdate :: "(string \<Rightarrow> nat \<Rightarrow> status \<Rightarrow> cb_result) option"
  onToolCallError :: "(string \<Rightarrow> nat \<Rightarrow> jsval \<Rightarrow> jsval \<Rightarrow> error \<Rightarrow> cb_result) option"

section \<open>Tool selection\<close>

definition SMALL_MODEL :: string where
  "SMALL_MODEL = ''gpt-5-mini''"

record LlmOptions =
  model :: string
  systemPrompt :: string
  bound_tools :: "Tool list"

text \<open>The imported functions of the selector, as parameters.\<close>

record Collaborators =
  callLlm :: "string \<Rightarrow> LlmOptions \<Rightarrow> error + jsval"
  getToolSelectionSystemPrompt :: "string \<Rightarrow> string"
  buildToolSelectionPrompt :: "string \<Rightarrow> string list \<Rightarrow> string list \<Rightarrow> string"

fun join :: "string \<Rightarrow> string list \<Rightarrow> string" where
  "join sep [] = []"
| "join sep [x] = x"
| "join sep (x # y # ys) = x @ sep @ join sep (y # ys)"

definition newline :: string where
  "newline = [CHR 0x0A]"

definition formatArg :: "string \<times> string option \<Rightarrow> string" where
  "formatArg kv =
     ''  - '' @ fst kv @ '': '' @
       (case snd kv of None \<Rightarrow> ''No description''
        | Some d \<Rightarrow> if d = [] then ''No description'' else d)"

definition formatTool :: "Tool \<Rightarrow> string" where
  "formatTool t =
     (let argsDescription =
        (case schema t of
           None \<Rightarrow> []
         | Some shape \<Rightarrow>
             (let as = join newline (map formatArg shape)
              in if as = [] then [] else newline @ ''  Arguments:'' @ newline @ as))
      in ''- '' @ name t @ '': '' @ tool_description t @ argsDescription)"

definition formatToolDescriptions :: "ToolExecutor \<Rightarrow> string" where
  "formatToolDescriptions ex = join (newline @ newline) (map formatTool (tools ex))"

text \<open>\<^verbatim>\<open>!v\<close> is true for the falsy values.\<close>

fun falsy :: "jsval \<Rightarrow> bool" where
  "falsy JUndefined = True"
| "falsy JNull = True"
| "falsy (JBool b) = (\<not> b)"
| "falsy (JNum n) = (n = 0)"
| "falsy (JStr s) = (s = [])"
| "falsy (JArr xs) = False"
| "falsy (JObj kvs) = False"

text \<open>\<^verbatim>\<open>typeof v === 'object'\<close>.\<close>

fun typeof_object :: "jsval \<Rightarrow> bool" where
  "typeof_object JNull = True"
| "typeof_object (JArr xs) = True"
| "typeof_object (JObj kvs) = True"
| "typeof_object v = False"

fun isArray :: "jsval \<Rightarrow> bool" where
  "isArray (JArr xs) = True"
| "isArray v = False"

text \<open>
  Reading one of the properties \<^verbatim>\<open>tool_calls\<close>, \<^verbatim>\<open>name\<close>, \<^verbatim>\<open>args\<close>: a TypeError on
  \<^verbatim>\<open>undefined\<close> and \<^verbatim>\<open>null\<close>, the stored value on an object that has the key, and
  \<^verbatim>\<open>undefined\<close> everywhere else (arrays and primitives carry none of the three).
\<close>

fun get_prop :: "jsval \<Rightarrow> string \<Rightarrow> error + jsval" where
  "get_prop JUndefined k = Inl TypeError"
| "get_prop JNull k = Inl TypeError"
| "get_prop (JObj kvs) k = Inr (case map_of kvs k of None \<Rightarrow> JUndefined | Some v \<Rightarrow> v)"
| "get_prop v k = Inr JUndefined"

text \<open>\<^verbatim>\<open>message.tool_calls.map(tc => ({ tool: tc.name, args: tc.args }))\<close>.\<close>

fun proposed_calls :: "jsval list \<Rightarrow> error + ProposedCall list" where
  "proposed_calls [] = Inr []"
| "proposed_calls (tc # tcs) =
     (case get_prop tc ''name'' of
        Inl e \<Rightarrow> Inl e
      | Inr n \<Rightarrow>
          (case get_prop tc ''args'' of
             Inl e \<Rightarrow> Inl e
           | Inr a \<Rightarrow>
               (case proposed_calls tcs of
                  Inl e \<Rightarrow> Inl e
                | Inr rest \<Rightarrow> Inr (\<lparr>tool = n, args = a\<rparr> # rest))))"

definition extractToolCalls :: "jsval \<Rightarrow> error + ProposedCall list" where
  "extractToolCalls response =
     (if falsy response \<or> \<not> typeof_object response then Inr []
      else
        (case get_prop response ''tool_calls'' of
           Inl e \<Rightarrow> Inl e
         | Inr tcv \<Rightarrow>
             (if falsy tcv \<or> \<not> isArray tcv then Inr []
              else (case tcv of JArr tcs \<Rightarrow> proposed_calls tcs | _ \<Rightarrow> Inr []))))"

definition as_pending :: "ProposedCall \<Rightarrow> ToolCallStatus" where
  "as_pending tc = \<lparr>tool = tool tc, args = args tc, status = Pending\<rparr>"

text \<open>The prompt and the options \<^verbatim>\<open>selectTools\<close> passes to \<^verbatim>\<open>callLlm\<close>.\<close>

definition selection_prompt :: "Collaborators \<Rightarrow> Task \<Rightarrow> Understanding \<Rightarrow> string" where
  "selection_prompt env task understanding =
     (let tickers = map entity_value (filter (\<lambda>e. entity_type e = ''ticker'') (entities understanding));
          periods = map entity_value (filter (\<lambda>e. entity_type e = ''period'') (entities understanding))
      in buildToolSelectionPrompt env (description task) tickers periods)"

definition selection_options :: "Collaborators \<Rightarrow> ToolExecutor \<Rightarrow> LlmOptions" where
  "selection_options env ex =
     \<lparr>model = SMALL_MODEL,
      systemPrompt = getToolSelectionSystemPrompt env (formatToolDescriptions ex),
      bound_tools = tools ex\<rparr>"

definition selectTools ::
  "Collaborators \<Rightarrow> ToolExecutor \<Rightarrow> Task \<Rightarrow> Understanding \<Rightarrow> error + ToolCallStatus list" where
  "selectTools env ex task understanding =
     (case callLlm env (selection_prompt env task understanding) (selection_options env ex) of
        Inl e \<Rightarrow> Inl e
      | Inr response \<Rightarrow>
          (case extractToolCalls response of
             Inl e \<Rightarrow> Inl e
           | Inr tcs \<Rightarrow> Inr (map as_pending tcs)))"

section \<open>Tool execution\<close>

subsection \<open>Retry policy of \<^verbatim>\<open>invokeWithRetries\<close>\<close>

definition maxAttempts :: nat where
  "maxAttempts = 3"

text \<open>\<^verbatim>\<open>String.prototype.includes\<close>: the argument occurs as a contiguous substring.\<close>

fun str_includes :: "string \<Rightarrow> string \<Rightarrow> bool" where
  "str_includes [] sub = (sub = [])"
| "str_includes (c # cs) sub = (prefix sub (c # cs) \<or> str_includes cs sub)"

text \<open>\<open>msg\<close> is \<^verbatim>\<open>String(err || '')\<close> of the value the capability threw.\<close>

definition isTooMany :: "string \<Rightarrow> bool" where
  "isTooMany msg \<longleftrightarrow>
     str_includes msg ''429'' \<or> str_includes msg ''Too Many Requests'' \<or> str_includes msg ''Failed to get crumb''"

text \<open>
  Numbers are IEEE-754 doubles, and a product is the double nearest to the exact product,
  ties going to the even one. \<open>spacing x\<close> is the distance between neighbouring doubles
  at \<open>x\<close>, for \<open>0 \<le> x < 512\<close>: \<open>2 ^ e / 2 ^ 52\<close> where \<open>2 ^ e \<le> x < 2 ^ (e + 1)\<close>, from
  \<open>e = 8\<close> down to \<open>e = - 1022\<close>, and \<open>1 / 2 ^ 1074\<close> below. \<open>double_of x\<close> is the double
  nearest to \<open>x\<close>, and the doubles are the numbers it leaves as they are.
\<close>

primrec ulp :: "nat \<Rightarrow> rat \<Rightarrow> rat \<Rightarrow> rat" where
  "ulp 0 b x = b / 2 ^ 52"
| "ulp (Suc n) b x = (if b \<le> x then b / 2 ^ 52 else ulp n (b / 2) x)"

definition spacing :: "rat \<Rightarrow> rat" where
  "spacing x = ulp 1030 256 x"

definition nearest_even :: "rat \<Rightarrow> int" where
  "nearest_even y =
     (let f = \<lfloor>y\<rfloor>; d = y - of_int f
      in if d < 1 / 2 then f else if 1 / 2 < d then f + 1 else if even f then f else f + 1)"

definition double_of :: "rat \<Rightarrow> rat" where
  "double_of x = of_int (nearest_even (x / spacing x)) * spacing x"


text \<open>
  \<^verbatim>\<open>Math.pow(2, attempt) * 1000 + Math.floor(Math.random() * 500)\<close>, in milliseconds;
  \<open>r\<close> is the value \<^verbatim>\<open>Math.random()\<close> returned, a double with \<open>0 \<le> r < 1\<close>. The
  product \<^verbatim>\<open>Math.random() * 500\<close> is rounded to a double before the floor is taken; the
  power, its product with 1000 and the sum are integers far below \<open>2 ^ 53\<close> for the attempts
  1 and 2, the only ones at which a delay is computed, and exact.
\<close>

definition jitter :: "rat \<Rightarrow> nat" where
  "jitter r = nat \<lfloor>double_of (r * 500)\<rfloor>"

definition delay :: "nat \<Rightarrow> rat \<Rightarrow> nat" where
  "delay attempt r = 2 ^ attempt * 1000 + jitter r"

subsection \<open>The call of \<^verbatim>\<open>executeTools\<close> and its workers\<close>

record Invocation =
  executor :: ToolExecutor
  task :: Task
  queryId :: string
  callbacks :: "ToolExecutorCallbacks option"

definition callCount :: "Invocation \<Rightarrow> nat" where
  "callCount cx = (case toolCalls (task cx) of None \<Rightarrow> 0 | Some tcs \<Rightarrow> length tcs)"

text \<open>\<^verbatim>\<open>this.maxConcurrentToolCalls ?? 3\<close>.\<close>

definition maxConcurrent :: "ToolExecutor \<Rightarrow> int" where
  "maxConcurrent ex = (case maxConcurrentToolCalls ex of None \<Rightarrow> 3 | Some m \<Rightarrow> m)"

text \<open>\<^verbatim>\<open>Math.max(1, Math.min(maxConcurrent, task.toolCalls.length))\<close>, the number of workers.\<close>

definition poolSize :: "Invocation \<Rightarrow> nat" where
  "poolSize cx = nat (max 1 (min (maxConcurrent (executor cx)) (int (callCount cx))))"

text \<open>
  A worker is the async closure \<^verbatim>\<open>worker\<close>. Its control point says which statement it
  executes next, or at which \<^verbatim>\<open>await\<close> it is suspended; the index is its local
  \<^verbatim>\<open>idx\<close>, the second number of \<open>Awaiting\<close> and \<open>Backoff\<close> the local \<^verbatim>\<open>attempt\<close> of
  \<^verbatim>\<open>invokeWithRetries\<close>.
\<close>

datatype pc =
    AtClaim
  | AtRunningCb nat
  | AtTry nat
  | Awaiting nat nat
  | Backoff nat nat
  | AtSave nat jsval
  | AtCompletedCb nat
  | AtCatch nat error
  | AtFailedCb nat error
  | AtErrorCb nat error
  | Returned
  | Rejected error

text \<open>
  The trace of a run: the index a worker claims, each \<^verbatim>\<open>tool.invoke\<close> with its attempt
  number, each backoff with its delay, each assignment to a \<^verbatim>\<open>status\<close> field, and each
  call of an observer.
\<close>

datatype effect =
    Claimed nat nat
  | Invoked nat nat
  | Slept nat nat
  | StatusSet nat status
  | UpdateCb string nat status
  | ErrorCb string nat jsval jsval error

record state =
  calls :: "ToolCallStatus list"
  nextIndex :: nat
  allSucceeded :: bool
  workers :: "pc list"
  active :: "nat option"
  rejection :: "error option"
  store :: "ContextEntry list"
  log :: "effect list"

text \<open>
  What the environment decides: \<open>Tick\<close> lets the running worker execute its next
  statement (or, while \<^verbatim>\<open>Array.from\<close> still builds the pool, starts the next worker);
  the others settle the promise a suspended worker awaits. \<open>Rejects w msg r\<close> carries
  the thrown value's string and the \<^verbatim>\<open>Math.random()\<close> draw used if a retry follows.
\<close>

datatype event =
    Tick
  | Resolves nat jsval
  | Rejects nat string rat
  | TimerFires nat

text \<open>A worker that executes, as opposed to one suspended at an \<^verbatim>\<open>await\<close> or finished.\<close>

fun internal :: "pc \<Rightarrow> bool" where
  "internal (Awaiting idx k) = False"
| "internal (Backoff idx k) = False"
| "internal Returned = False"
| "internal (Rejected e) = False"
| "internal p = True"

text \<open>
  The worker \<open>w\<close> continues at \<open>p\<close>. JavaScript runs a worker until it suspends or
  ends, so \<open>w\<close> stays the running worker exactly while \<open>p\<close> is internal. The first
  rejection among the workers is the one \<^verbatim>\<open>Promise.all\<close> rejects with.
\<close>

definition goto :: "nat \<Rightarrow> pc \<Rightarrow> state \<Rightarrow> state" where
  "goto w p s =
     s\<lparr>workers := (workers s)[w := p],
       active := (if internal p then Some w else None),
       rejection := (case p of
                      Rejected e \<Rightarrow> (case rejection s of None \<Rightarrow> Some e | Some e0 \<Rightarrow> Some e0)
                    | _ \<Rightarrow> rejection s)\<rparr>"

definition emit :: "effect \<Rightarrow> state \<Rightarrow> state" where
  "emit x s = s\<lparr>log := log s @ [x]\<rparr>"

text \<open>\<^verbatim>\<open>callbacks?.onToolCallUpdate\<close> and \<^verbatim>\<open>callbacks?.onToolCallError\<close>.\<close>

definition observer_update :: "Invocation \<Rightarrow> (string \<Rightarrow> nat \<Rightarrow> status \<Rightarrow> cb_result) option" where
  "observer_update cx = (case callbacks cx of None \<Rightarrow> None | Some c \<Rightarrow> onToolCallUpdate c)"

definition observer_error ::
  "Invocation \<Rightarrow> (string \<Rightarrow> nat \<Rightarrow> jsval \<Rightarrow> jsval \<Rightarrow> error \<Rightarrow> cb_result) option" where
  "observer_error cx = (case callbacks cx of None \<Rightarrow> None | Some c \<Rightarrow> onToolCallError c)"

text \<open>\<^verbatim>\<open>callbacks?.onToolCallUpdate?.(task.id, idx, st)\<close>.\<close>

definition fire_update :: "Invocation \<Rightarrow> nat \<Rightarrow> status \<Rightarrow> state \<Rightarrow> cb_result \<times> state" where
  "fire_update cx idx st s =
     (case observer_update cx of
        None \<Rightarrow> (Returns, s)
      | Some f \<Rightarrow> (f (task_id (task cx)) idx st, emit (UpdateCb (task_id (task cx)) idx st) s))"

text \<open>\<^verbatim>\<open>callbacks?.onToolCallError?.(task.id, idx, toolCall.tool, toolCall.args, error)\<close>.\<close>

definition fire_error :: "Invocation \<Rightarrow> nat \<Rightarrow> error \<Rightarrow> state \<Rightarrow> cb_result \<times> state" where
  "fire_error cx idx err s =
     (case observer_error cx of
        None \<Rightarrow> (Returns, s)
      | Some f \<Rightarrow>
          (let tc = calls s ! idx; tid = task_id (task cx)
           in (f tid idx (tool tc) (args tc) err, emit (ErrorCb tid idx (tool tc) (args tc) err) s)))"

text \<open>\<^verbatim>\<open>toolCall.status = st\<close>, where \<^verbatim>\<open>toolCall\<close> is the entry at the worker's index.\<close>

definition set_status :: "nat \<Rightarrow> status \<Rightarrow> state \<Rightarrow> state" where
  "set_status idx st s =
     emit (StatusSet idx st) (s\<lparr>calls := (calls s)[idx := (calls s ! idx)\<lparr>status := st\<rparr>]\<rparr>)"

text \<open>
  One statement of the worker \<open>w\<close> at the control point \<open>p\<close>, following the body of
  \<^verbatim>\<open>worker\<close>: the claim and the exit test; the running notification, outside the
  \<^verbatim>\<open>try\<close>; the lookup and the first \<^verbatim>\<open>tool.invoke\<close>; the save and the completed
  status; the completed notification, inside the \<^verbatim>\<open>try\<close>; and the three statements
  of the \<^verbatim>\<open>catch\<close> block. The index was tested against the length when claimed.
\<close>

definition exec :: "Invocation \<Rightarrow> nat \<Rightarrow> pc \<Rightarrow> state \<Rightarrow> state" where
  "exec cx w p s =
     (case p of
        AtClaim \<Rightarrow>
          (let idx = nextIndex s; s1 = s\<lparr>nextIndex := idx + 1\<rparr>
           in if idx \<ge> length (calls s1) then goto w Returned s1
              else goto w (AtRunningCb idx) (emit (Claimed w idx) s1))
      | AtRunningCb idx \<Rightarrow>
          (case fire_update cx idx Running s of
             (Returns, s1) \<Rightarrow> goto w (AtTry idx) s1
           | (Throws e, s1) \<Rightarrow> goto w (Rejected (ObserverError e)) s1)
      | AtTry idx \<Rightarrow>
          (case toolMap_get (executor cx) (tool (calls s ! idx)) of
             None \<Rightarrow> goto w (AtCatch idx (ToolNotFound (tool (calls s ! idx)))) s
           | Some t \<Rightarrow> goto w (Awaiting idx 1) (emit (Invoked idx 1) s))
      | AtSave idx result \<Rightarrow>
          (let tc = calls s ! idx;
               entry = \<lparr>entry_tool = tool tc, entry_args = args tc, entry_result = result,
                        entry_queryId = queryId cx\<rparr>
           in case contextManager (executor cx) entry (store s) of
                Inl m \<Rightarrow> goto w (AtCatch idx (SaveError m)) s
              | Inr st' \<Rightarrow> goto w (AtCompletedCb idx) (set_status idx Completed (s\<lparr>store := st'\<rparr>)))
      | AtCompletedCb idx \<Rightarrow>
          (case fire_update cx idx Completed s of
             (Returns, s1) \<Rightarrow> goto w AtClaim s1
           | (Throws e, s1) \<Rightarrow> goto w (AtCatch idx (ObserverError e)) s1)
      | AtCatch idx err \<Rightarrow>
          goto w (AtFailedCb idx err) (set_status idx Failed (s\<lparr>allSucceeded := False\<rparr>))
      | AtFailedCb idx err \<Rightarrow>
          (case fire_update cx idx Failed s of
             (Returns, s1) \<Rightarrow> goto w (AtErrorCb idx err) s1
           | (Throws e, s1) \<Rightarrow> goto w (Rejected (ObserverError e)) s1)
      | AtErrorCb idx err \<Rightarrow>
          (case fire_error cx idx err s of
             (Returns, s1) \<Rightarrow> goto w AtClaim s1
           | (Throws e, s1) \<Rightarrow> goto w (Rejected (ObserverError e)) s1)
      | _ \<Rightarrow> s)"

text \<open>
  \<open>Tick\<close>: the running worker executes; when none runs and the pool is not complete,
  \<^verbatim>\<open>Array.from\<close> calls \<^verbatim>\<open>worker()\<close> once more.
\<close>

definition tick :: "Invocation \<Rightarrow> state \<Rightarrow> state" where
  "tick cx s =
     (case active s of
        Some w \<Rightarrow> exec cx w (workers s ! w) s
      | None \<Rightarrow>
          (if length (workers s) < poolSize cx
           then s\<lparr>workers := workers s @ [AtClaim], active := Some (length (workers s))\<rparr>
           else s))"

text \<open>
  A suspended worker is resumed only when no worker runs and the pool is complete
  (the synchronous part of \<^verbatim>\<open>executeTools\<close> has reached \<^verbatim>\<open>await Promise.all\<close>).
\<close>

definition idle :: "Invocation \<Rightarrow> state \<Rightarrow> bool" where
  "idle cx s \<longleftrightarrow> active s = None \<and> length (workers s) = poolSize cx"

text \<open>\<^verbatim>\<open>return await tool.invoke(args)\<close> fulfils: the worker goes on after the \<^verbatim>\<open>await\<close>.\<close>

definition resolves :: "Invocation \<Rightarrow> nat \<Rightarrow> jsval \<Rightarrow> state \<Rightarrow> state" where
  "resolves cx w v s =
     (if idle cx s \<and> w < length (workers s) then
        (case workers s ! w of
           Awaiting idx attempt \<Rightarrow> goto w (AtSave idx v) s
         | _ \<Rightarrow> s)
      else s)"

text \<open>
  The \<^verbatim>\<open>catch\<close> of \<^verbatim>\<open>invokeWithRetries\<close>: rethrow unless the error is a throttle error
  and attempts remain; otherwise sleep.
\<close>

definition rejects :: "Invocation \<Rightarrow> nat \<Rightarrow> string \<Rightarrow> rat \<Rightarrow> state \<Rightarrow> state" where
  "rejects cx w msg r s =
     (if idle cx s \<and> w < length (workers s) then
        (case workers s ! w of
           Awaiting idx attempt \<Rightarrow>
             (if \<not> isTooMany msg \<or> attempt = maxAttempts
              then goto w (AtCatch idx (InvokeError msg)) s
              else goto w (Backoff idx attempt) (emit (Slept idx (delay attempt r)) s))
         | _ \<Rightarrow> s)
      else s)"

text \<open>
  The timer of the backoff fires: \<^verbatim>\<open>attempt++\<close>, the loop test, and the next
  \<^verbatim>\<open>tool.invoke\<close>; a loop that ends makes \<^verbatim>\<open>invokeWithRetries\<close> return \<^verbatim>\<open>undefined\<close>.
\<close>

definition timerFires :: "Invocation \<Rightarrow> nat \<Rightarrow> state \<Rightarrow> state" where
  "timerFires cx w s =
     (if idle cx s \<and> w < length (workers s) then
        (case workers s ! w of
           Backoff idx attempt \<Rightarrow>
             (if attempt + 1 \<le> maxAttempts
              then goto w (Awaiting idx (attempt + 1)) (emit (Invoked idx (attempt + 1)) s)
              else goto w (AtSave idx JUndefined) s)
         | _ \<Rightarrow> s)
      else s)"

fun step :: "Invocation \<Rightarrow> event \<Rightarrow> state \<Rightarrow> state" where
  "step cx Tick s = tick cx s"
| "step cx (Resolves w v) s = resolves cx w v s"
| "step cx (Rejects w msg r) s = rejects cx w msg r s"
| "step cx (TimerFires w) s = timerFires cx w s"

fun run :: "Invocation \<Rightarrow> event list \<Rightarrow> state \<Rightarrow> state" where
  "run cx [] s = s"
| "run cx (e # es) s = run cx es (step cx e s)"

text \<open>The state after lines 97 to 119: nothing claimed, no worker started.\<close>

definition init :: "ToolCallStatus list \<Rightarrow> ContextEntry list \<Rightarrow> state" where
  "init tcs st =
     \<lparr>calls = tcs, nextIndex = 0, allSucceeded = True, workers = [], active = None,
      rejection = None, store = st, log = []\<rparr>"

datatype promise = Unsettled | Resolved bool | RejectedWith error

text \<open>\<^verbatim>\<open>await Promise.all(workers); return allSucceeded\<close>.\<close>

definition promise_of :: "Invocation \<Rightarrow> state \<Rightarrow> promise" where
  "promise_of cx s =
     (case rejection s of
        Some e \<Rightarrow> RejectedWith e
      | None \<Rightarrow>
          (if length (workers s) = poolSize cx \<and> (\<forall>p \<in> set (workers s). p = Returned)
           then Resolved (allSucceeded s) else Unsettled))"

record Outcome =
  promise :: promise
  task_after :: Task
  store_after :: "ContextEntry list"
  effects :: "effect list"

text \<open>
  \<^verbatim>\<open>executeTools\<close> under the schedule \<open>evs\<close> of the environment, started on the store
  \<open>st\<close>: the promise it returned, the task, the store and the trace.
\<close>

definition executeTools :: "Invocation \<Rightarrow> ContextEntry list \<Rightarrow> event list \<Rightarrow> Outcome" where
  "executeTools cx st evs =
     (case toolCalls (task cx) of
        None \<Rightarrow> \<lparr>promise = Resolved True, task_after = task cx, store_after = st, effects = []\<rparr>
      | Some tcs \<Rightarrow>
          (let s = run cx evs (init tcs st)
           in \<lparr>promise = promise_of cx s,
               task_after = (task cx)\<lparr>toolCalls := Some (calls s)\<rparr>,
               store_after = store s,
               effects = log s\<rparr>))"

section \<open>Transitions\<close>

lemma goto_simps [simp]:
  "calls (goto w p s) = calls s"
  "nextIndex (goto w p s) = nextIndex s"
  "allSucceeded (goto w p s) = allSucceeded s"
  "store (goto w p s) = store s"
  "log (goto w p s) = log s"
  "workers (goto w p s) = (workers s)[w := p]"
  "active (goto w p s) = (if internal p then Some w else None)"
  by (simp_all add: goto_def)

lemma emit_simps [simp]:
  "calls (emit x s) = calls s"
  "nextIndex (emit x s) = nextIndex s"
  "allSucceeded (emit x s) = allSucceeded s"
  "store (emit x s) = store s"
  "log (emit x s) = log s @ [x]"
  "workers (emit x s) = workers s"
  "active (emit x s) = active s"
  "rejection (emit x s) = rejection s"
  by (simp_all add: emit_def)

lemma set_status_simps [simp]:
  "calls (set_status i st s) = (calls s)[i := (calls s ! i)\<lparr>status := st\<rparr>]"
  "nextIndex (set_status i st s) = nextIndex s"
  "allSucceeded (set_status i st s) = allSucceeded s"
  "store (set_status i st s) = store s"
  "log (set_status i st s) = log s @ [StatusSet i st]"
  "workers (set_status i st s) = workers s"
  "active (set_status i st s) = active s"
  "rejection (set_status i st s) = rejection s"
  by (simp_all add: set_status_def)

definition update_note :: "Invocation \<Rightarrow> nat \<Rightarrow> status \<Rightarrow> effect list" where
  "update_note cx i st =
     (case observer_update cx of None \<Rightarrow> [] | Some f \<Rightarrow> [UpdateCb (task_id (task cx)) i st])"

definition error_note :: "Invocation \<Rightarrow> nat \<Rightarrow> error \<Rightarrow> state \<Rightarrow> effect list" where
  "error_note cx i e s =
     (case observer_error cx of None \<Rightarrow> []
      | Some f \<Rightarrow> [ErrorCb (task_id (task cx)) i (tool (calls s ! i)) (args (calls s ! i)) e])"

lemma fire_update_simps [simp]:
  "calls (snd (fire_update cx i st s)) = calls s"
  "nextIndex (snd (fire_update cx i st s)) = nextIndex s"
  "allSucceeded (snd (fire_update cx i st s)) = allSucceeded s"
  "store (snd (fire_update cx i st s)) = store s"
  "workers (snd (fire_update cx i st s)) = workers s"
  "active (snd (fire_update cx i st s)) = active s"
  "rejection (snd (fire_update cx i st s)) = rejection s"
  "log (snd (fire_update cx i st s)) = log s @ update_note cx i st"
  by (simp_all add: fire_update_def update_note_def split: option.splits)

lemma fire_error_simps [simp]:
  "calls (snd (fire_error cx i e s)) = calls s"
  "nextIndex (snd (fire_error cx i e s)) = nextIndex s"
  "allSucceeded (snd (fire_error cx i e s)) = allSucceeded s"
  "store (snd (fire_error cx i e s)) = store s"
  "workers (snd (fire_error cx i e s)) = workers s"
  "active (snd (fire_error cx i e s)) = active s"
  "rejection (snd (fire_error cx i e s)) = rejection s"
  "log (snd (fire_error cx i e s)) = log s @ error_note cx i e s"
  by (simp_all add: fire_error_def error_note_def Let_def split: option.splits)

inductive moves :: "Invocation \<Rightarrow> state \<Rightarrow> state \<Rightarrow> bool" for cx :: Invocation where
  spawn: "\<lbrakk>active s = None; length (workers s) < poolSize cx\<rbrakk>
     \<Longrightarrow> moves cx s (s\<lparr>workers := workers s @ [AtClaim], active := Some (length (workers s))\<rparr>)"
| leave: "\<lbrakk>active s = Some w; workers s ! w = AtClaim; length (calls s) \<le> nextIndex s\<rbrakk>
     \<Longrightarrow> moves cx s (goto w Returned (s\<lparr>nextIndex := Suc (nextIndex s)\<rparr>))"
| claim: "\<lbrakk>active s = Some w; workers s ! w = AtClaim; nextIndex s < length (calls s)\<rbrakk>
     \<Longrightarrow> moves cx s (goto w (AtRunningCb (nextIndex s))
           (emit (Claimed w (nextIndex s)) (s\<lparr>nextIndex := Suc (nextIndex s)\<rparr>)))"
| running_ok: "\<lbrakk>active s = Some w; workers s ! w = AtRunningCb i;
      fst (fire_update cx i Running s) = Returns\<rbrakk>
     \<Longrightarrow> moves cx s (goto w (AtTry i) (snd (fire_update cx i Running s)))"
| running_throws: "\<lbrakk>active s = Some w; workers s ! w = AtRunningCb i;
      fst (fire_update cx i Running s) = Throws e\<rbrakk>
     \<Longrightarrow> moves cx s (goto w (Rejected (ObserverError e)) (snd (fire_update cx i Running s)))"
| missing: "\<lbrakk>active s = Some w; workers s ! w = AtTry i;
      toolMap_get (executor cx) (tool (calls s ! i)) = None\<rbrakk>
     \<Longrightarrow> moves cx s (goto w (AtCatch i (ToolNotFound (tool (calls s ! i)))) s)"
| invoke: "\<lbrakk>active s = Some w; workers s ! w = AtTry i;
      toolMap_get (executor cx) (tool (calls s ! i)) = Some t\<rbrakk>
     \<Longrightarrow> moves cx s (goto w (Awaiting i 1) (emit (Invoked i 1) s))"
| save_throws: "\<lbrakk>active s = Some w; workers s ! w = AtSave i v;
      contextManager (executor cx)
        \<lparr>entry_tool = tool (calls s ! i), entry_args = args (calls s ! i), entry_result = v,
         entry_queryId = queryId cx\<rparr> (store s) = Inl m\<rbrakk>
     \<Longrightarrow> moves cx s (goto w (AtCatch i (SaveError m)) s)"
| save_ok: "\<lbrakk>active s = Some w; workers s ! w = AtSave i v;
      contextManager (executor cx)
        \<lparr>entry_tool = tool (calls s ! i), entry_args = args (calls s ! i), entry_result = v,
         entry_queryId = queryId cx\<rparr> (store s) = Inr st'\<rbrakk>
     \<Longrightarrow> moves cx s (goto w (AtCompletedCb i) (set_status i Completed (s\<lparr>store := st'\<rparr>)))"
| completed_ok: "\<lbrakk>active s = Some w; workers s ! w = AtCompletedCb i;
      fst (fire_update cx i Completed s) = Returns\<rbrakk>
     \<Longrightarrow> moves cx s (goto w AtClaim (snd (fire_update cx i Completed s)))"
| completed_throws: "\<lbrakk>active s = Some w; workers s ! w = AtCompletedCb i;
      fst (fire_update cx i Completed s) = Throws e\<rbrakk>
     \<Longrightarrow> moves cx s (goto w (AtCatch i (ObserverError e)) (snd (fire_update cx i Completed s)))"
| caught: "\<lbrakk>active s = Some w; workers s ! w = AtCatch i err\<rbrakk>
     \<Longrightarrow> moves cx s (goto w (AtFailedCb i err) (set_status i Failed (s\<lparr>allSucceeded := False\<rparr>)))"
| failed_ok: "\<lbrakk>active s = Some w; workers s ! w = AtFailedCb i err;
      fst (fire_update cx i Failed s) = Returns\<rbrakk>
     \<Longrightarrow> moves cx s (goto w (AtErrorCb i err) (snd (fire_update cx i Failed s)))"
| failed_throws: "\<lbrakk>active s = Some w; workers s ! w = AtFailedCb i err;
      fst (fire_update cx i Failed s) = Throws e\<rbrakk>
     \<Longrightarrow> moves cx s (goto w (Rejected (ObserverError e)) (snd (fire_update cx i Failed s)))"
| error_ok: "\<lbrakk>active s = Some w; workers s ! w = AtErrorCb i err;
      fst (fire_error cx i err s) = Returns\<rbrakk>
     \<Longrightarrow> moves cx s (goto w AtClaim (snd (fire_error cx i err s)))"
| error_throws: "\<lbrakk>active s = Some w; workers s ! w = AtErrorCb i err;
      fst (fire_error cx i err s) = Throws e\<rbrakk>
     \<Longrightarrow> moves cx s (goto w (Rejected (ObserverError e)) (snd (fire_error cx i err s)))"
| fulfilled: "\<lbrakk>idle cx s; w < length (workers s); workers s ! w = Awaiting i k\<rbrakk>
     \<Longrightarrow> moves cx s (goto w (AtSave i v) s)"
| gave_up: "\<lbrakk>idle cx s; w < length (workers s); workers s ! w = Awaiting i k;
      \<not> isTooMany msg \<or> k = maxAttempts\<rbrakk>
     \<Longrightarrow> moves cx s (goto w (AtCatch i (InvokeError msg)) s)"
| backed_off: "\<lbrakk>idle cx s; w < length (workers s); workers s ! w = Awaiting i k;
      isTooMany msg; k \<noteq> maxAttempts\<rbrakk>
     \<Longrightarrow> moves cx s (goto w (Backoff i k) (emit (Slept i (delay k r)) s))"
| retried: "\<lbrakk>idle cx s; w < length (workers s); workers s ! w = Backoff i k; Suc k \<le> maxAttempts\<rbrakk>
     \<Longrightarrow> moves cx s (goto w (Awaiting i (Suc k)) (emit (Invoked i (Suc k)) s))"
| fell_through: "\<lbrakk>idle cx s; w < length (workers s); workers s ! w = Backoff i k;
      \<not> Suc k \<le> maxAttempts\<rbrakk>
     \<Longrightarrow> moves cx s (goto w (AtSave i JUndefined) s)"


lemma exec_moves:
  assumes "active s = Some w"
  shows "exec cx w (workers s ! w) s = s \<or> moves cx s (exec cx w (workers s ! w) s)"
proof (cases "workers s ! w")
  case AtClaim
  with assms show ?thesis
    by (auto simp: exec_def Let_def intro: moves.leave moves.claim)
next
  case (AtRunningCb i)
  obtain r s1 where f: "fire_update cx i Running s = (r, s1)" by fastforce
  with assms AtRunningCb moves.running_ok[of s w i cx] moves.running_throws[of s w i cx] show ?thesis
    by (cases r) (auto simp: exec_def)
next
  case (AtTry i)
  with assms moves.missing[of s w i cx] moves.invoke[of s w i cx] show ?thesis
    by (cases "toolMap_get (executor cx) (tool (calls s ! i))") (auto simp: exec_def)
next
  case (AtSave i v)
  with assms moves.save_throws[of s w i v cx] moves.save_ok[of s w i v cx] show ?thesis
    by (auto simp: exec_def Let_def split: sum.splits)
next
  case (AtCompletedCb i)
  obtain r s1 where f: "fire_update cx i Completed s = (r, s1)" by fastforce
  with assms AtCompletedCb moves.completed_ok[of s w i cx] moves.completed_throws[of s w i cx] show ?thesis
    by (cases r) (auto simp: exec_def)
next
  case (AtCatch i err)
  with assms moves.caught[of s w i err cx] show ?thesis
    by (auto simp: exec_def)
next
  case (AtFailedCb i err)
  obtain r s1 where f: "fire_update cx i Failed s = (r, s1)" by fastforce
  with assms AtFailedCb moves.failed_ok[of s w i err cx] moves.failed_throws[of s w i err cx] show ?thesis
    by (cases r) (auto simp: exec_def)
next
  case (AtErrorCb i err)
  obtain r s1 where f: "fire_error cx i err s = (r, s1)" by fastforce
  with assms AtErrorCb moves.error_ok[of s w i err cx] moves.error_throws[of s w i err cx] show ?thesis
    by (cases r) (auto simp: exec_def)
qed (simp_all add: exec_def)

lemma step_moves: "step cx e s = s \<or> moves cx s (step cx e s)"
proof (cases e)
  case Tick
  show ?thesis
  proof (cases "active s")
    case None
    with Tick moves.spawn[of s cx] show ?thesis by (auto simp: tick_def)
  next
    case (Some w)
    with Tick exec_moves[of s w cx] show ?thesis by (simp add: tick_def)
  qed
next
  case (Resolves w v)
  then show ?thesis
    by (auto simp: resolves_def split: pc.splits intro: moves.fulfilled)
next
  case (Rejects w msg r)
  then show ?thesis
    by (auto simp: rejects_def split: pc.splits intro: moves.gave_up moves.backed_off)
next
  case (TimerFires w)
  then show ?thesis
    by (auto simp: timerFires_def split: pc.splits intro: moves.retried moves.fell_through)
qed

fun holds :: "pc \<Rightarrow> nat option" where
  "holds AtClaim = None"
| "holds (AtRunningCb i) = Some i"
| "holds (AtTry i) = Some i"
| "holds (Awaiting i k) = Some i"
| "holds (Backoff i k) = Some i"
| "holds (AtSave i v) = Some i"
| "holds (AtCompletedCb i) = Some i"
| "holds (AtCatch i e) = Some i"
| "holds (AtFailedCb i e) = Some i"
| "holds (AtErrorCb i e) = Some i"
| "holds Returned = None"
| "holds (Rejected e) = None"

definition wf :: "Invocation \<Rightarrow> nat \<Rightarrow> state \<Rightarrow> bool" where
  "wf cx n s \<longleftrightarrow>
     length (calls s) = n \<and>
     length (workers s) \<le> poolSize cx \<and>
     (\<forall>w. active s = Some w \<longrightarrow> w < length (workers s)) \<and>
     (\<forall>w < length (workers s). internal (workers s ! w) \<longleftrightarrow> active s = Some w) \<and>
     (\<forall>w < length (workers s). \<forall>i. holds (workers s ! w) = Some i \<longrightarrow> i < nextIndex s \<and> i < n) \<and>
     (\<forall>w < length (workers s). \<forall>v < length (workers s). \<forall>i.
         holds (workers s ! w) = Some i \<longrightarrow> holds (workers s ! v) = Some i \<longrightarrow> w = v)"

lemma wf_frame [simp]:
  "wf cx n (emit x s) = wf cx n s"
  "wf cx n (set_status i st s) = wf cx n s"
  "wf cx n (s\<lparr>store := st'\<rparr>) = wf cx n s"
  "wf cx n (s\<lparr>allSucceeded := b\<rparr>) = wf cx n s"
  "wf cx n (snd (fire_update cx i st s)) = wf cx n s"
  "wf cx n (snd (fire_error cx i e s)) = wf cx n s"
  by (simp_all add: wf_def)

lemma wf_goto:
  assumes "wf cx n s" and "w < length (workers s)"
    and "\<forall>v < length (workers s). v \<noteq> w \<longrightarrow> \<not> internal (workers s ! v)"
    and "\<And>i. holds p = Some i \<Longrightarrow> holds (workers s ! w) = Some i \<or>
           (i < nextIndex s \<and> i < n \<and> (\<forall>v < length (workers s). holds (workers s ! v) \<noteq> Some i))"
  shows "wf cx n (goto w p s)"
proof -
  let ?ws = "workers s"
  have d: "\<And>a b j. a < length ?ws \<Longrightarrow> b < length ?ws \<Longrightarrow> holds (?ws ! a) = Some j
      \<Longrightarrow> holds (?ws ! b) = Some j \<Longrightarrow> a = b"
    using assms(1) unfolding wf_def by blast
  have b: "\<And>a j. a < length ?ws \<Longrightarrow> holds (?ws ! a) = Some j \<Longrightarrow> j < nextIndex s \<and> j < n"
    using assms(1) unfolding wf_def by blast
  have 1: "length (calls (goto w p s)) = n" using assms(1) by (simp add: wf_def)
  have 2: "length (workers (goto w p s)) \<le> poolSize cx" using assms(1) by (simp add: wf_def)
  have 3: "\<forall>v. active (goto w p s) = Some v \<longrightarrow> v < length (workers (goto w p s))"
    using assms(2) by simp
  have 4: "\<forall>v < length (workers (goto w p s)).
      internal (workers (goto w p s) ! v) \<longleftrightarrow> active (goto w p s) = Some v"
    using assms(2,3) by (simp add: nth_list_update)
  have 5: "\<forall>v < length (workers (goto w p s)). \<forall>i.
      holds (workers (goto w p s) ! v) = Some i \<longrightarrow> i < nextIndex (goto w p s) \<and> i < n"
  proof (intro allI impI)
    fix v i
    assume v: "v < length (workers (goto w p s))"
      and h: "holds (workers (goto w p s) ! v) = Some i"
    show "i < nextIndex (goto w p s) \<and> i < n"
    proof (cases "v = w")
      case True
      with h assms(2) have "holds p = Some i" by simp
      from assms(4)[OF this] b[OF assms(2)] show ?thesis by auto
    next
      case False
      with h v have "holds (?ws ! v) = Some i" by simp
      with b v show ?thesis by simp
    qed
  qed
  have 6: "\<forall>u < length (workers (goto w p s)). \<forall>v < length (workers (goto w p s)). \<forall>i.
      holds (workers (goto w p s) ! u) = Some i \<longrightarrow> holds (workers (goto w p s) ! v) = Some i
        \<longrightarrow> u = v"
  proof (intro allI impI)
    fix u v i
    assume u: "u < length (workers (goto w p s))" and v: "v < length (workers (goto w p s))"
      and hu: "holds (workers (goto w p s) ! u) = Some i"
      and hv: "holds (workers (goto w p s) ! v) = Some i"
    have other: "\<And>x. x < length ?ws \<Longrightarrow> x \<noteq> w \<Longrightarrow> holds p = Some i
        \<Longrightarrow> holds (?ws ! x) = Some i \<Longrightarrow> False"
    proof -
      fix x assume x: "x < length ?ws" "x \<noteq> w" "holds p = Some i" "holds (?ws ! x) = Some i"
      from assms(4)[OF x(3)] show False
      proof
        assume "holds (?ws ! w) = Some i"
        with d[OF assms(2) x(1) this x(4)] x(2) show False by simp
      next
        assume "i < nextIndex s \<and> i < n \<and> (\<forall>v < length ?ws. holds (?ws ! v) \<noteq> Some i)"
        with x(1,4) show False by blast
      qed
    qed
    show "u = v"
    proof (cases "u = w")
      case True
      show ?thesis
      proof (cases "v = w")
        case True with \<open>u = w\<close> show ?thesis by simp
      next
        case False
        from True hu assms(2) have "holds p = Some i" by simp
        moreover from False hv v have "holds (?ws ! v) = Some i" by simp
        ultimately show ?thesis using other[of v] False v by simp
      qed
    next
      case False
      show ?thesis
      proof (cases "v = w")
        case True
        from True hv assms(2) have "holds p = Some i" by simp
        moreover from False hu u have "holds (?ws ! u) = Some i" by simp
        ultimately show ?thesis using other[of u] False u by simp
      next
        case vw: False
        with False hu hv u v show ?thesis using d by simp
      qed
    qed
  qed
  show ?thesis unfolding wf_def using 1 2 3 4 5 6 by blast
qed

definition turn :: "Invocation \<Rightarrow> state \<Rightarrow> nat \<Rightarrow> bool" where
  "turn cx s w \<longleftrightarrow> active s = Some w \<or> (idle cx s \<and> w < length (workers s))"

lemma turn_frame [simp]:
  "turn cx (emit x s) w = turn cx s w"
  "turn cx (set_status i st s) w = turn cx s w"
  "turn cx (s\<lparr>store := st'\<rparr>) w = turn cx s w"
  "turn cx (s\<lparr>allSucceeded := b\<rparr>) w = turn cx s w"
  "turn cx (s\<lparr>nextIndex := k\<rparr>) w = turn cx s w"
  "turn cx (snd (fire_update cx i st s)) w = turn cx s w"
  "turn cx (snd (fire_error cx i e s)) w = turn cx s w"
  by (simp_all add: turn_def idle_def)

lemma turn_active [simp]: "active s = Some w \<Longrightarrow> turn cx s w"
  by (simp add: turn_def)

lemma turn_idle [simp]: "idle cx s \<Longrightarrow> w < length (workers s) \<Longrightarrow> turn cx s w"
  by (simp add: turn_def)

lemma turn_others:
  "wf cx n s \<Longrightarrow> turn cx s w \<Longrightarrow>
     w < length (workers s) \<and> (\<forall>v < length (workers s). v \<noteq> w \<longrightarrow> \<not> internal (workers s ! v))"
  by (auto simp: wf_def turn_def idle_def)

lemma wf_goto_turn:
  assumes "wf cx n s" "turn cx s w" "holds p = None \<or> holds p = holds (workers s ! w)"
  shows "wf cx n (goto w p s)"
  using wf_goto[OF assms(1), of w p] turn_others[OF assms(1,2)] assms(3) by auto

lemma idle_frame [simp]:
  "idle cx (emit x s) = idle cx s"
  "idle cx (set_status i st s) = idle cx s"
  by (simp_all add: idle_def)

lemma wf_bump: "wf cx n s \<Longrightarrow> wf cx n (s\<lparr>nextIndex := Suc (nextIndex s)\<rparr>)"
  unfolding wf_def by (simp add: less_Suc_eq)

lemma wf_spawn:
  assumes "wf cx n s" "active s = None" "length (workers s) < poolSize cx"
  shows "wf cx n (s\<lparr>workers := workers s @ [AtClaim], active := Some (length (workers s))\<rparr>)"
  using assms unfolding wf_def
  by (auto simp: nth_append)

lemma wf_moves: "moves cx s s' \<Longrightarrow> wf cx n s \<Longrightarrow> wf cx n s'"
proof (induction rule: moves.induct)
  case (spawn s)
  then show ?case by (simp add: wf_spawn)
next
  case (leave s w)
  from wf_bump[OF leave(4)] have "wf cx n (s\<lparr>nextIndex := Suc (nextIndex s)\<rparr>)" .
  from wf_goto_turn[OF this, of w Returned] leave(1) show ?case by simp
next
  case (claim s w)
  let ?s1 = "s\<lparr>nextIndex := Suc (nextIndex s)\<rparr>"
  have w1: "wf cx n (emit (Claimed w (nextIndex s)) ?s1)" using wf_bump[OF claim(4)] by simp
  have fresh: "\<forall>v < length (workers s). holds (workers s ! v) \<noteq> Some (nextIndex s)"
    using claim(4) unfolding wf_def by fastforce
  have "nextIndex s < n" using claim(3,4) by (simp add: wf_def)
  with wf_goto[OF w1, of w "AtRunningCb (nextIndex s)"] turn_others[OF claim(4), of w] claim(1) fresh
  show ?case by simp
qed (auto intro!: wf_goto_turn)


lemma wf_step: "wf cx n s \<Longrightarrow> wf cx n (step cx e s)"
  using step_moves[of cx e s] wf_moves[of cx s "step cx e s" n] by auto

lemma wf_init: "wf cx (length tcs) (init tcs st)"
  by (simp add: wf_def init_def)

lemma run_invariant:
  assumes pres: "\<And>s s'. moves cx s s' \<Longrightarrow> wf cx n s \<Longrightarrow> P s \<Longrightarrow> P s'"
    and "wf cx n s" and "P s"
  shows "P (run cx evs s)"
  using assms(2,3)
proof (induction evs arbitrary: s)
  case Nil
  then show ?case by simp
next
  case (Cons e evs)
  have "P (step cx e s)"
    using step_moves[of cx e s] pres[of s "step cx e s"] Cons.prems by auto
  with Cons.IH[of "step cx e s"] wf_step[OF Cons.prems(1)] show ?case by simp
qed

lemma wf_run: "wf cx n s \<Longrightarrow> wf cx n (run cx evs s)"
  by (induction evs arbitrary: s) (simp_all add: wf_step)

subsection \<open>frame\<close>

definition frame :: "ToolCallStatus list \<Rightarrow> state \<Rightarrow> bool" where
  "frame tcs s \<longleftrightarrow> map tool (calls s) = map tool tcs \<and> map args (calls s) = map args tcs"

lemma map_tool_status: "map tool (xs[i := (xs ! i)\<lparr>status := st\<rparr>]) = map tool xs"
  by (cases "i < length xs") (simp_all add: map_update list_update_same_conv list_update_beyond)

lemma map_args_status: "map args (xs[i := (xs ! i)\<lparr>status := st\<rparr>]) = map args xs"
  by (cases "i < length xs") (simp_all add: map_update list_update_same_conv list_update_beyond)

lemmas map_field_status = map_tool_status map_args_status

lemma frame_moves: "moves cx s s' \<Longrightarrow> frame tcs s \<Longrightarrow> frame tcs s'"
  by (induction rule: moves.induct) (simp_all add: frame_def map_field_status)

lemma frame_step: "frame tcs s \<Longrightarrow> frame tcs (step cx e s)"
  using step_moves[of cx e s] frame_moves[of cx s "step cx e s" tcs] by auto

lemma frame_run: "frame tcs s \<Longrightarrow> frame tcs (run cx evs s)"
  by (induction evs arbitrary: s) (simp_all add: frame_step)

lemma allSucceeded_moves: "moves cx s s' \<Longrightarrow> allSucceeded s' \<Longrightarrow> allSucceeded s"
  by (induction rule: moves.induct) simp_all

lemma nextIndex_moves: "moves cx s s' \<Longrightarrow> nextIndex s \<le> nextIndex s'"
  by (induction rule: moves.induct) simp_all

subsection \<open>claims\<close>

fun claimed :: "effect list \<Rightarrow> nat list" where
  "claimed [] = []"
| "claimed (Claimed w i # l) = i # claimed l"
| "claimed (x # l) = claimed l"

lemma claimed_append [simp]: "claimed (a @ b) = claimed a @ claimed b"
  by (induction a rule: claimed.induct) simp_all

lemma claimed_update_note [simp]: "claimed (update_note cx i st) = []"
  by (simp add: update_note_def split: option.splits)

lemma claimed_error_note [simp]: "claimed (error_note cx i e s) = []"
  by (simp add: error_note_def split: option.splits)

definition claims_ok :: "nat \<Rightarrow> state \<Rightarrow> bool" where
  "claims_ok n s \<longleftrightarrow> claimed (log s) = [0..<min (nextIndex s) n]"

lemma claims_moves: "moves cx s s' \<Longrightarrow> wf cx n s \<Longrightarrow> claims_ok n s \<Longrightarrow> claims_ok n s'"
proof (induction rule: moves.induct)
  case (leave s w)
  then show ?case by (simp add: claims_ok_def wf_def min_def)
next
  case (claim s w)
  then show ?case by (simp add: claims_ok_def wf_def min_def)
qed (simp_all add: claims_ok_def)

subsection \<open>resolution\<close>

lemma goto_rejection [simp]:
  "rejection (goto w p s) =
     (case p of Rejected e \<Rightarrow> (case rejection s of None \<Rightarrow> Some e | Some e0 \<Rightarrow> Some e0)
      | _ \<Rightarrow> rejection s)"
  by (simp add: goto_def)

fun pre :: "pc \<Rightarrow> nat option" where
  "pre (AtRunningCb i) = Some i"
| "pre (AtTry i) = Some i"
| "pre (Awaiting i k) = Some i"
| "pre (Backoff i k) = Some i"
| "pre (AtSave i v) = Some i"
| "pre (AtCatch i e) = Some i"
| "pre p = None"

lemma pre_holds: "pre p = Some i \<Longrightarrow> holds p = Some i"
  by (cases p) simp_all

definition in_progress :: "state \<Rightarrow> nat \<Rightarrow> bool" where
  "in_progress s i \<longleftrightarrow> (\<exists>w < length (workers s). pre (workers s ! w) = Some i)"

lemma in_progress_frame [simp]:
  "in_progress (emit x s) i = in_progress s i"
  "in_progress (set_status j st s) i = in_progress s i"
  "in_progress (s\<lparr>store := st'\<rparr>) i = in_progress s i"
  "in_progress (s\<lparr>allSucceeded := b\<rparr>) i = in_progress s i"
  "in_progress (s\<lparr>nextIndex := k\<rparr>) i = in_progress s i"
  "in_progress (snd (fire_update cx j st s)) i = in_progress s i"
  "in_progress (snd (fire_error cx j e s)) i = in_progress s i"
  by (simp_all add: in_progress_def)

lemma in_progress_spawn [simp]:
  "in_progress (s\<lparr>workers := workers s @ [AtClaim], active := a\<rparr>) i = in_progress s i"
  by (auto simp: in_progress_def nth_append less_Suc_eq)

lemma in_progress_goto:
  assumes "wf cx n s" "w < length (workers s)"
  shows "in_progress (goto w p s) j \<longleftrightarrow>
           pre p = Some j \<or> (in_progress s j \<and> pre (workers s ! w) \<noteq> Some j)"
proof
  assume "in_progress (goto w p s) j"
  then obtain v where v: "v < length (workers s)" "pre ((workers s)[w := p] ! v) = Some j"
    by (auto simp: in_progress_def)
  show "pre p = Some j \<or> (in_progress s j \<and> pre (workers s ! w) \<noteq> Some j)"
  proof (cases "v = w")
    case True
    with v assms(2) show ?thesis by simp
  next
    case False
    with v have pv: "pre (workers s ! v) = Some j" by simp
    have "pre (workers s ! w) \<noteq> Some j"
    proof
      assume "pre (workers s ! w) = Some j"
      with pv have "holds (workers s ! w) = Some j" "holds (workers s ! v) = Some j"
        by (simp_all add: pre_holds)
      with assms v(1) have "w = v" unfolding wf_def by blast
      with False show False by simp
    qed
    with pv v(1) show ?thesis by (auto simp: in_progress_def)
  qed
next
  assume "pre p = Some j \<or> (in_progress s j \<and> pre (workers s ! w) \<noteq> Some j)"
  then show "in_progress (goto w p s) j"
  proof
    assume "pre p = Some j"
    with assms(2) show ?thesis
      unfolding in_progress_def by (auto intro!: exI[of _ w])
  next
    assume a: "in_progress s j \<and> pre (workers s ! w) \<noteq> Some j"
    then obtain v where v: "v < length (workers s)" "pre (workers s ! v) = Some j"
      by (auto simp: in_progress_def)
    with a have "v \<noteq> w" by auto
    with v show ?thesis
      unfolding in_progress_def by (auto intro!: exI[of _ v])
  qed
qed

lemma in_progress_goto_same:
  assumes "wf cx n s" "turn cx s w" "pre p = pre (workers s ! w)"
  shows "in_progress (goto w p s) j = in_progress s j"
  using in_progress_goto[OF assms(1), of w p j] turn_others[OF assms(1,2)] assms(3)
  by (auto simp: in_progress_def)

definition tally :: "nat \<Rightarrow> state \<Rightarrow> bool" where
  "tally n s \<longleftrightarrow>
     (\<forall>i < min (nextIndex s) n. \<not> in_progress s i \<longrightarrow> status (calls s ! i) \<noteq> Failed)"

definition verdict_ok :: "nat \<Rightarrow> state \<Rightarrow> bool" where
  "verdict_ok n s \<longleftrightarrow>
     ((\<exists>w < length (workers s). workers s ! w = Returned) \<longrightarrow> n \<le> nextIndex s) \<and>
     (\<forall>w < length (workers s). \<forall>i. workers s ! w = AtCompletedCb i \<longrightarrow> status (calls s ! i) = Completed) \<and>
     (rejection s = None \<longrightarrow> (allSucceeded s \<longleftrightarrow> tally n s))"

lemma nth_upd: "v < length ws \<Longrightarrow> ws[w := p] ! v = (if v = w then p else ws ! v)"
  by (cases "v = w") simp_all

lemma verdict_returned_moves:
  assumes "moves cx s s'" "wf cx n s"
    "(\<exists>w < length (workers s). workers s ! w = Returned) \<longrightarrow> n \<le> nextIndex s"
  shows "(\<exists>w < length (workers s'). workers s' ! w = Returned) \<longrightarrow> n \<le> nextIndex s'"
  using assms
proof (induction rule: moves.induct)
  case (spawn s)
  then show ?case by (auto simp: nth_append less_Suc_eq)
next
  case (leave s w)
  then show ?case by (simp add: wf_def)
next
  case (claim s w)
  then show ?case by (auto simp: nth_upd split: if_splits)
qed (auto simp: nth_upd split: if_splits)

lemma verdict_completed_moves:
  assumes "moves cx s s'" "wf cx n s"
    "\<forall>w < length (workers s). \<forall>i. workers s ! w = AtCompletedCb i \<longrightarrow> status (calls s ! i) = Completed"
  shows "\<forall>w < length (workers s'). \<forall>i. workers s' ! w = AtCompletedCb i \<longrightarrow> status (calls s' ! i) = Completed"
  using assms
proof (induction rule: moves.induct)
  case (spawn s)
  then show ?case by (auto simp: nth_append less_Suc_eq)
next
  case (save_ok s w i v st')
  have iw: "w < length (workers s)" "i < length (calls s)"
    using save_ok(1,2,4) unfolding wf_def by auto
  have "\<forall>u < length (workers s). u \<noteq> w \<longrightarrow> \<not> internal (workers s ! u)"
    using turn_others[OF save_ok(4), of w] save_ok(1) by simp
  then have "\<forall>u < length (workers s). \<forall>j. u \<noteq> w \<longrightarrow> workers s ! u \<noteq> AtCompletedCb j"
    by fastforce
  with iw show ?case by (auto simp: nth_upd)
next
  case (caught s w i err)
  have "\<forall>u < length (workers s). u \<noteq> w \<longrightarrow> \<not> internal (workers s ! u)"
    using turn_others[OF caught(3), of w] caught(1) by simp
  then have "\<forall>u < length (workers s). \<forall>j. u \<noteq> w \<longrightarrow> workers s ! u \<noteq> AtCompletedCb j"
    by fastforce
  then show ?case by (auto simp: nth_upd)
qed (auto simp: nth_upd split: if_splits)


lemma tally_frame [simp]:
  "tally n (emit x s) = tally n s"
  "tally n (s\<lparr>store := st'\<rparr>) = tally n s"
  "tally n (snd (fire_update cx j st s)) = tally n s"
  "tally n (snd (fire_error cx j e s)) = tally n s"
  by (simp_all add: tally_def)

lemma tally_goto_same:
  assumes "wf cx n s" "turn cx s w" "pre p = pre (workers s ! w)"
  shows "tally n (goto w p s) = tally n s"
  by (simp add: tally_def in_progress_goto_same[OF assms])

lemma verdict_tally_moves:
  assumes "moves cx s s'" "wf cx n s"
    "\<forall>w < length (workers s). \<forall>i. workers s ! w = AtCompletedCb i \<longrightarrow> status (calls s ! i) = Completed"
    "rejection s = None \<longrightarrow> (allSucceeded s \<longleftrightarrow> tally n s)"
  shows "rejection s' = None \<longrightarrow> (allSucceeded s' \<longleftrightarrow> tally n s')"
  using assms
proof (induction rule: moves.induct)
  case (spawn s)
  then show ?case by (simp add: tally_def)
next
  case (leave s w)
  have "n \<le> nextIndex s" using leave(3,4) by (simp add: wf_def)
  then have m: "min (Suc (nextIndex s)) n = min (nextIndex s) n" by simp
  have w: "w < length (workers s)" using leave(1,4) by (simp add: wf_def)
  have "\<And>j. in_progress (goto w Returned (s\<lparr>nextIndex := Suc (nextIndex s)\<rparr>)) j = in_progress s j"
    using in_progress_goto[OF wf_bump[OF leave(4)], of w Returned] w leave(2)
    by (simp add: in_progress_def)
  with leave(6) show ?case by (simp add: tally_def m)
next
  case (claim s w)
  let ?k = "nextIndex s"
  have kn: "?k < n" using claim(3,4) by (simp add: wf_def)
  then have m: "min (Suc ?k) n = Suc (min ?k n)" by simp
  have w: "w < length (workers s)" using claim(1,4) by (simp add: wf_def)
  have ip: "\<And>j. in_progress (goto w (AtRunningCb ?k) (emit (Claimed w ?k) (s\<lparr>nextIndex := Suc ?k\<rparr>))) j
      = (j = ?k \<or> in_progress s j)"
    using in_progress_goto[of cx n "emit (Claimed w ?k) (s\<lparr>nextIndex := Suc ?k\<rparr>)" w "AtRunningCb ?k"]
      wf_bump[OF claim(4)] w claim(2)
    by (auto simp: in_progress_def)
  from claim(6) kn show ?case
    by (auto simp: tally_def m ip less_Suc_eq)
next
  case (save_ok s w i v st')
  have w: "w < length (workers s)" and i: "i < n" "i < nextIndex s" "length (calls s) = n"
    using save_ok(1,2,4) unfolding wf_def by auto
  have ip: "\<And>j. in_progress (goto w (AtCompletedCb i) (set_status i Completed (s\<lparr>store := st'\<rparr>))) j
      = (in_progress s j \<and> j \<noteq> i)"
    using in_progress_goto[of cx n "set_status i Completed (s\<lparr>store := st'\<rparr>)" w "AtCompletedCb i"]
      save_ok(4) w save_ok(2)
    by auto
  have here: "in_progress s i" using w save_ok(2) by (auto simp: in_progress_def)
  have "tally n (goto w (AtCompletedCb i) (set_status i Completed (s\<lparr>store := st'\<rparr>))) = tally n s"
    unfolding tally_def using i here by (auto simp: ip nth_list_update)
  with save_ok(6) show ?case by simp
next
  case (completed_throws s w i e)
  have w: "w < length (workers s)" using completed_throws(1,4) by (simp add: wf_def)
  have c: "status (calls s ! i) = Completed" using completed_throws(2,5) w by simp
  have ip: "\<And>j. in_progress (goto w (AtCatch i (ObserverError e)) (snd (fire_update cx i Completed s))) j
      = (j = i \<or> in_progress s j)"
    using in_progress_goto[of cx n "snd (fire_update cx i Completed s)" w "AtCatch i (ObserverError e)"]
      completed_throws(4) w completed_throws(2)
    by auto
  have "tally n (goto w (AtCatch i (ObserverError e)) (snd (fire_update cx i Completed s))) = tally n s"
    unfolding tally_def using c by (auto simp: ip)
  with completed_throws(6) show ?case by simp
next
  case (caught s w i err)
  have w: "w < length (workers s)" and i: "i < n" "i < nextIndex s" "length (calls s) = n"
    using caught(1,2,3) unfolding wf_def by auto
  have ip: "\<And>j. in_progress (goto w (AtFailedCb i err) (set_status i Failed (s\<lparr>allSucceeded := False\<rparr>))) j
      = (in_progress s j \<and> j \<noteq> i)"
    using in_progress_goto[of cx n "set_status i Failed (s\<lparr>allSucceeded := False\<rparr>)" w "AtFailedCb i err"]
      caught(3) w caught(2)
    by auto
  have "\<not> tally n (goto w (AtFailedCb i err) (set_status i Failed (s\<lparr>allSucceeded := False\<rparr>)))"
    unfolding tally_def using i by (auto simp: ip intro!: exI[of _ i])
  then show ?case by simp
qed (simp_all add: tally_goto_same[where cx = cx] split: option.splits)


lemma verdict_moves:
  assumes m: "moves cx s s'" and w: "wf cx n s" and v: "verdict_ok n s"
  shows "verdict_ok n s'"
proof -
  have a: "(\<exists>w < length (workers s). workers s ! w = Returned) \<longrightarrow> n \<le> nextIndex s"
    and b: "\<forall>w < length (workers s). \<forall>i. workers s ! w = AtCompletedCb i \<longrightarrow> status (calls s ! i) = Completed"
    and c: "rejection s = None \<longrightarrow> (allSucceeded s \<longleftrightarrow> tally n s)"
    using v by (simp_all add: verdict_ok_def)
  show ?thesis
    unfolding verdict_ok_def
    using verdict_returned_moves[OF m w a] verdict_completed_moves[OF m w b]
      verdict_tally_moves[OF m w b c]
    by (intro conjI)
qed

lemma verdict_init: "verdict_ok n (init tcs st)"
  by (simp add: verdict_ok_def tally_def init_def)

lemma verdict_run: "verdict_ok (length tcs) (run cx evs (init tcs st))"
  using run_invariant[of cx "length tcs" "verdict_ok (length tcs)" "init tcs st" evs]
    verdict_moves wf_init verdict_init
  by blast

lemma poolSize_pos: "0 < poolSize cx"
  by (simp add: poolSize_def)



subsection \<open>rejections\<close>

definition rejections_ok :: "state \<Rightarrow> bool" where
  "rejections_ok s \<longleftrightarrow>
     (rejection s = None \<longleftrightarrow> (\<forall>w < length (workers s). \<forall>e. workers s ! w \<noteq> Rejected e)) \<and>
     (\<forall>e. rejection s = Some e \<longrightarrow> (\<exists>m. e = ObserverError m)) \<and>
     (\<forall>w < length (workers s). \<forall>e. workers s ! w = Rejected e \<longrightarrow> (\<exists>m. e = ObserverError m))"

lemma rejections_goto_plain:
  assumes "rejections_ok s" "w < length (workers s)" "\<forall>e. p \<noteq> Rejected e" "\<forall>e. workers s ! w \<noteq> Rejected e"
  shows "rejections_ok (goto w p s)"
proof -
  have r: "rejection (goto w p s) = rejection s" using assms(3) by (cases p) simp_all
  have "(\<forall>v < length (workers s). \<forall>e. (workers s)[w := p] ! v \<noteq> Rejected e)
      \<longleftrightarrow> (\<forall>v < length (workers s). \<forall>e. workers s ! v \<noteq> Rejected e)"
    using assms(2,3,4) by (auto simp: nth_upd split: if_splits)
  moreover have "\<forall>v < length (workers s). \<forall>e. (workers s)[w := p] ! v = Rejected e \<longrightarrow> (\<exists>m. e = ObserverError m)"
    using assms(1,3) by (auto simp: nth_upd rejections_ok_def)
  ultimately show ?thesis using assms(1) r by (simp add: rejections_ok_def)
qed

lemma rejections_goto_observer:
  assumes "rejections_ok s" "w < length (workers s)"
  shows "rejections_ok (goto w (Rejected (ObserverError m)) s)"
proof -
  have "\<exists>v < length (workers s). \<exists>e. (workers s)[w := Rejected (ObserverError m)] ! v = Rejected e"
    using assms(2) by (auto intro!: exI[of _ w])
  moreover have "\<forall>v < length (workers s). \<forall>e.
      (workers s)[w := Rejected (ObserverError m)] ! v = Rejected e \<longrightarrow> (\<exists>m. e = ObserverError m)"
    using assms(1) by (auto simp: nth_upd rejections_ok_def)
  ultimately show ?thesis using assms(1)
    by (auto simp: rejections_ok_def split: option.splits)
qed

lemma rejections_frame [simp]:
  "rejections_ok (emit x s) = rejections_ok s"
  "rejections_ok (set_status j st s) = rejections_ok s"
  "rejections_ok (s\<lparr>store := st'\<rparr>) = rejections_ok s"
  "rejections_ok (s\<lparr>allSucceeded := b\<rparr>) = rejections_ok s"
  "rejections_ok (s\<lparr>nextIndex := k\<rparr>) = rejections_ok s"
  "rejections_ok (snd (fire_update cx j st s)) = rejections_ok s"
  "rejections_ok (snd (fire_error cx j e s)) = rejections_ok s"
  by (simp_all add: rejections_ok_def)

lemma rejections_moves: "moves cx s s' \<Longrightarrow> wf cx n s \<Longrightarrow> rejections_ok s \<Longrightarrow> rejections_ok s'"
proof (induction rule: moves.induct)
  case (spawn s)
  then show ?case by (auto simp: rejections_ok_def nth_append less_Suc_eq)
qed (auto intro!: rejections_goto_plain rejections_goto_observer simp: wf_def)

lemma rejections_init: "rejections_ok (init tcs st)"
  by (simp add: rejections_ok_def init_def)

lemma rejections_run: "rejections_ok (run cx evs (init tcs st))"
  using run_invariant[of cx "length tcs" rejections_ok "init tcs st" evs]
    rejections_moves wf_init rejections_init
  by blast

definition observers_return :: "Invocation \<Rightarrow> bool" where
  "observers_return cx \<longleftrightarrow>
     (\<forall>f tid i st. observer_update cx = Some f \<longrightarrow> f tid i st = Returns) \<and>
     (\<forall>g tid i t a e. observer_error cx = Some g \<longrightarrow> g tid i t a e = Returns)"

lemma observers_return_fire:
  assumes "observers_return cx"
  shows "fst (fire_update cx i st s) = Returns" "fst (fire_error cx i e s) = Returns"
  using assms
  by (auto simp: observers_return_def fire_update_def fire_error_def Let_def split: option.splits)

lemma quiet_moves:
  "moves cx s s' \<Longrightarrow> observers_return cx \<Longrightarrow> rejection s = None \<Longrightarrow> rejection s' = None"
  by (induction rule: moves.induct) (simp_all add: observers_return_fire)

lemma quiet_run: "observers_return cx \<Longrightarrow> rejection s = None \<Longrightarrow> rejection (run cx evs s) = None"
proof (induction evs arbitrary: s)
  case Nil
  then show ?case by simp
next
  case (Cons e evs)
  have "rejection (step cx e s) = None"
    using step_moves[of cx e s] quiet_moves[of cx s "step cx e s"] Cons.prems by auto
  with Cons show ?case by simp
qed

subsection \<open>Progress\<close>

text \<open>
  How many steps a worker at a control point can still take before it is back at the
  claim, and the potential of a state: every transition lowers it.
\<close>

fun rank :: "pc \<Rightarrow> nat" where
  "rank Returned = 0"
| "rank (Rejected e) = 0"
| "rank AtClaim = 1"
| "rank (AtErrorCb i e) = 2"
| "rank (AtFailedCb i e) = 3"
| "rank (AtCatch i e) = 4"
| "rank (AtCompletedCb i) = 5"
| "rank (AtSave i v) = 6"
| "rank (Backoff i k) = (if k \<le> 2 then 8 + 2 * (2 - k) else 7)"
| "rank (Awaiting i k) = (if k = 0 then 13 else if k \<le> 3 then 7 + 2 * (3 - k) else 8)"
| "rank (AtTry i) = 12"
| "rank (AtRunningCb i) = 13"

definition potential :: "Invocation \<Rightarrow> nat \<Rightarrow> state \<Rightarrow> nat" where
  "potential cx n s =
     sum_list (map rank (workers s)) + 2 * (poolSize cx - length (workers s))
       + 13 * (n - min (nextIndex s) n)"

lemma sum_list_rank_update:
  "w < length ws \<Longrightarrow> sum_list (map rank (ws[w := p])) + rank (ws ! w) = sum_list (map rank ws) + rank p"
proof (induction ws arbitrary: w)
  case Nil
  then show ?case by simp
next
  case (Cons a ws)
  then show ?case by (cases w) (simp_all add: algebra_simps)
qed

lemma potential_goto:
  assumes "w < length (workers s)" "workers s1 = workers s"
    "potential cx n s1 = potential cx n s" "rank p < rank (workers s ! w)"
  shows "potential cx n (goto w p s1) < potential cx n s"
proof -
  have "sum_list (map rank ((workers s)[w := p])) + rank (workers s ! w)
      = sum_list (map rank (workers s)) + rank p"
    using sum_list_rank_update[OF assms(1), of p] .
  with assms(4) have "sum_list (map rank ((workers s)[w := p])) < sum_list (map rank (workers s))"
    by linarith
  moreover have "potential cx n (goto w p s1) + sum_list (map rank (workers s))
      = potential cx n s + sum_list (map rank ((workers s)[w := p]))"
    using assms(2,3) by (simp add: potential_def)
  ultimately show ?thesis by linarith
qed

lemma wf_active_lt: "wf cx n s \<Longrightarrow> active s = Some w \<Longrightarrow> w < length (workers s)"
  by (simp add: wf_def)

lemma potential_frame [simp]:
  "potential cx n (emit x s) = potential cx n s"
  "potential cx n (set_status j st s) = potential cx n s"
  "potential cx n (s\<lparr>store := st'\<rparr>) = potential cx n s"
  "potential cx n (s\<lparr>allSucceeded := b\<rparr>) = potential cx n s"
  "potential cx n (snd (fire_update cx j st s)) = potential cx n s"
  "potential cx n (snd (fire_error cx j e s)) = potential cx n s"
  by (simp_all add: potential_def)

lemma potential_moves: "moves cx s s' \<Longrightarrow> wf cx n s \<Longrightarrow> potential cx n s' < potential cx n s"
proof (induction rule: moves.induct)
  case (spawn s)
  then show ?case by (simp add: potential_def)
next
  case (leave s w)
  have w: "w < length (workers s)" and n: "n \<le> nextIndex s"
    using leave unfolding wf_def by auto
  from sum_list_rank_update[OF w, of Returned] leave(2) n show ?case
    by (simp add: potential_def)
next
  case (claim s w)
  have w: "w < length (workers s)" and n: "nextIndex s < n"
    using claim unfolding wf_def by auto
  from sum_list_rank_update[OF w, of "AtRunningCb (nextIndex s)"] claim(2) n show ?case
    by (simp add: potential_def min_def)
next
  case (backed_off s w i k msg r)
  then show ?case by (intro potential_goto) (auto simp: maxAttempts_def)
next
  case (retried s w i k)
  then show ?case by (intro potential_goto) (auto simp: maxAttempts_def)
next
  case (fell_through s w i k)
  then show ?case by (intro potential_goto) (auto simp: maxAttempts_def)
qed ((rule potential_goto; simp add: wf_active_lt[where cx = cx and n = n] maxAttempts_def)+)


lemma exec_moves_internal:
  assumes "active s = Some w" "internal (workers s ! w)"
  shows "moves cx s (exec cx w (workers s ! w) s)"
proof (cases "workers s ! w")
  case AtClaim
  with assms show ?thesis
    by (auto simp: exec_def Let_def intro: moves.leave moves.claim)
next
  case (AtRunningCb i)
  obtain r s1 where f: "fire_update cx i Running s = (r, s1)" by fastforce
  with assms AtRunningCb moves.running_ok[of s w i cx] moves.running_throws[of s w i cx] show ?thesis
    by (cases r) (auto simp: exec_def)
next
  case (AtTry i)
  with assms moves.missing[of s w i cx] moves.invoke[of s w i cx] show ?thesis
    by (cases "toolMap_get (executor cx) (tool (calls s ! i))") (auto simp: exec_def)
next
  case (AtSave i v)
  with assms moves.save_throws[of s w i v cx] moves.save_ok[of s w i v cx] show ?thesis
    by (auto simp: exec_def Let_def split: sum.splits)
next
  case (AtCompletedCb i)
  obtain r s1 where f: "fire_update cx i Completed s = (r, s1)" by fastforce
  with assms AtCompletedCb moves.completed_ok[of s w i cx] moves.completed_throws[of s w i cx] show ?thesis
    by (cases r) (auto simp: exec_def)
next
  case (AtCatch i err)
  with assms moves.caught[of s w i err cx] show ?thesis
    by (auto simp: exec_def)
next
  case (AtFailedCb i err)
  obtain r s1 where f: "fire_update cx i Failed s = (r, s1)" by fastforce
  with assms AtFailedCb moves.failed_ok[of s w i err cx] moves.failed_throws[of s w i err cx] show ?thesis
    by (cases r) (auto simp: exec_def)
next
  case (AtErrorCb i err)
  obtain r s1 where f: "fire_error cx i err s = (r, s1)" by fastforce
  with assms AtErrorCb moves.error_ok[of s w i err cx] moves.error_throws[of s w i err cx] show ?thesis
    by (cases r) (auto simp: exec_def)
qed (use assms in simp_all)

text \<open>
  An environment that answers: \<open>env i k\<close> is what the \<open>k\<close>-th \<^verbatim>\<open>tool.invoke\<close> of the call
  \<open>i\<close> does, a result or a thrown value with the random draw of the backoff; timers
  fire. \<open>next_event\<close> lets the program run and otherwise settles the promise of the
  first suspended worker.
\<close>

type_synonym answers = "nat \<Rightarrow> nat \<Rightarrow> jsval + string \<times> rat"

fun answer :: "answers \<Rightarrow> nat \<Rightarrow> pc \<Rightarrow> event option" where
  "answer env w (Awaiting i k) =
     Some (case env i k of Inl v \<Rightarrow> Resolves w v | Inr (msg, r) \<Rightarrow> Rejects w msg r)"
| "answer env w (Backoff i k) = Some (TimerFires w)"
| "answer env w p = None"

fun first_answer :: "answers \<Rightarrow> nat \<Rightarrow> pc list \<Rightarrow> event option" where
  "first_answer env w [] = None"
| "first_answer env w (p # ps) =
     (case answer env w p of Some e \<Rightarrow> Some e | None \<Rightarrow> first_answer env (Suc w) ps)"

definition next_event :: "Invocation \<Rightarrow> answers \<Rightarrow> state \<Rightarrow> event option" where
  "next_event cx env s =
     (if active s \<noteq> None \<or> length (workers s) < poolSize cx then Some Tick
      else first_answer env 0 (workers s))"

fun schedule :: "Invocation \<Rightarrow> answers \<Rightarrow> nat \<Rightarrow> state \<Rightarrow> event list" where
  "schedule cx env 0 s = []"
| "schedule cx env (Suc k) s =
     (case next_event cx env s of
        None \<Rightarrow> []
      | Some e \<Rightarrow> e # schedule cx env k (step cx e s))"

fun finished :: "pc \<Rightarrow> bool" where
  "finished Returned = True"
| "finished (Rejected e) = True"
| "finished p = False"

definition quiescent :: "Invocation \<Rightarrow> state \<Rightarrow> bool" where
  "quiescent cx s \<longleftrightarrow> length (workers s) = poolSize cx \<and> list_all finished (workers s)"

lemma first_answer_Some:
  "first_answer env w0 ps = Some e \<Longrightarrow> \<exists>v < length ps. answer env (w0 + v) (ps ! v) = Some e"
proof (induction ps arbitrary: w0)
  case Nil
  then show ?case by simp
next
  case (Cons p ps)
  show ?case
  proof (cases "answer env w0 p")
    case None
    with Cons.prems have "first_answer env (Suc w0) ps = Some e" by simp
    from Cons.IH[OF this] obtain v where "v < length ps" "answer env (Suc w0 + v) (ps ! v) = Some e"
      by blast
    then show ?thesis by (intro exI[of _ "Suc v"]) simp
  next
    case (Some a)
    with Cons.prems show ?thesis by (intro exI[of _ 0]) simp
  qed
qed

lemma first_answer_None:
  "first_answer env w0 ps = None \<Longrightarrow> v < length ps \<Longrightarrow> answer env (w0 + v) (ps ! v) = None"
proof (induction ps arbitrary: w0 v)
  case Nil
  then show ?case by simp
next
  case (Cons p ps)
  show ?case
  proof (cases v)
    case 0
    with Cons.prems show ?thesis by (simp split: option.splits)
  next
    case (Suc u)
    from Cons.prems have "first_answer env (Suc w0) ps = None" by (simp split: option.splits)
    from Cons.IH[OF this, of u] Suc Cons.prems(2) show ?thesis by simp
  qed
qed

lemma next_event_moves:
  assumes "wf cx n s" "next_event cx env s = Some e"
  shows "moves cx s (step cx e s)"
proof (cases "active s")
  case (Some w)
  with assms(2) have e: "e = Tick" by (simp add: next_event_def)
  have "w < length (workers s)" "internal (workers s ! w)"
    using assms(1) Some by (auto simp: wf_def)
  with exec_moves_internal[OF Some, of cx] e Some show ?thesis by (simp add: tick_def)
next
  case None
  show ?thesis
  proof (cases "length (workers s) < poolSize cx")
    case True
    with assms(2) None have "e = Tick" by (simp add: next_event_def)
    with moves.spawn[OF None True] None True show ?thesis by (simp add: tick_def)
  next
    case False
    with assms(1) have full: "length (workers s) = poolSize cx" by (simp add: wf_def)
    with None have idle: "idle cx s" by (simp add: idle_def)
    from assms(2) None False have "first_answer env 0 (workers s) = Some e"
      by (simp add: next_event_def)
    from first_answer_Some[OF this] obtain w where w: "w < length (workers s)"
      "answer env w (workers s ! w) = Some e" by auto
    show ?thesis
    proof (cases "workers s ! w")
      case (Awaiting i k)
      show ?thesis
      proof (cases "env i k")
        case (Inl v)
        with w Awaiting have "e = Resolves w v" by simp
        with moves.fulfilled[OF idle w(1) Awaiting] idle w(1) Awaiting show ?thesis
          by (simp add: resolves_def)
      next
        case (Inr mr)
        obtain msg r where mr: "mr = (msg, r)" by (cases mr)
        with Inr w Awaiting have e: "e = Rejects w msg r" by simp
        show ?thesis
        proof (cases "\<not> isTooMany msg \<or> k = maxAttempts")
          case True
          with moves.gave_up[OF idle w(1) Awaiting True] e idle w(1) Awaiting show ?thesis
            by (simp add: rejects_def)
        next
          case False
          then have "isTooMany msg" "k \<noteq> maxAttempts" by auto
          with moves.backed_off[OF idle w(1) Awaiting this] e idle w(1) Awaiting show ?thesis
            by (simp add: rejects_def)
        qed
      qed
    next
      case (Backoff i k)
      with w have e: "e = TimerFires w" by simp
      show ?thesis
      proof (cases "Suc k \<le> maxAttempts")
        case True
        with moves.retried[OF idle w(1) Backoff True] e idle w(1) Backoff show ?thesis
          by (simp add: timerFires_def)
      next
        case False
        with moves.fell_through[OF idle w(1) Backoff False] e idle w(1) Backoff show ?thesis
          by (simp add: timerFires_def)
      qed
    qed (use w in simp_all)
  qed
qed

lemma next_event_quiescent:
  assumes "wf cx n s" "next_event cx env s = None"
  shows "quiescent cx s"
proof -
  from assms(2) have a: "active s = None" and l: "\<not> length (workers s) < poolSize cx"
    and f: "first_answer env 0 (workers s) = None"
    by (auto simp: next_event_def split: if_splits)
  from l assms(1) have full: "length (workers s) = poolSize cx" by (simp add: wf_def)
  have "finished (workers s ! w)" if w: "w < length (workers s)" for w
  proof -
    have "\<not> internal (workers s ! w)" using assms(1) a w by (simp add: wf_def)
    moreover have "answer env w (workers s ! w) = None"
      using first_answer_None[OF f w] by simp
    ultimately show ?thesis by (cases "workers s ! w") simp_all
  qed
  then have "list_all finished (workers s)" by (simp add: list_all_length)
  with full show ?thesis by (simp add: quiescent_def)
qed

lemma schedule_quiescent:
  "wf cx n s \<Longrightarrow> potential cx n s \<le> fuel \<Longrightarrow> quiescent cx (run cx (schedule cx env fuel s) s)"
proof (induction fuel arbitrary: s)
  case 0
  show ?case
  proof (cases "next_event cx env s")
    case None
    with next_event_quiescent[OF "0.prems"(1)] show ?thesis by simp
  next
    case (Some e)
    from potential_moves[OF next_event_moves[OF "0.prems"(1) Some] "0.prems"(1)] "0.prems"(2)
    show ?thesis by simp
  qed
next
  case (Suc fuel)
  show ?case
  proof (cases "next_event cx env s")
    case None
    with next_event_quiescent[OF Suc.prems(1)] show ?thesis by simp
  next
    case (Some e)
    have m: "moves cx s (step cx e s)" using next_event_moves[OF Suc.prems(1) Some] .
    from potential_moves[OF m Suc.prems(1)] Suc.prems(2)
    have "potential cx n (step cx e s) \<le> fuel" by simp
    from Suc.IH[OF wf_moves[OF m Suc.prems(1)] this] Some show ?thesis by simp
  qed
qed

lemma potential_init: "potential cx (length tcs) (init tcs st) = 2 * poolSize cx + 13 * length tcs"
  by (simp add: potential_def init_def)

lemma run_append: "run cx (a @ b) s = run cx b (run cx a s)"
  by (induction a arbitrary: s) simp_all

lemma allSucceeded_step: "allSucceeded (step cx e s) \<Longrightarrow> allSucceeded s"
  using step_moves[of cx e s] allSucceeded_moves[of cx s "step cx e s"] by auto

lemma allSucceeded_run: "allSucceeded (run cx evs s) \<Longrightarrow> allSucceeded s"
  by (induction evs arbitrary: s) (auto dest: allSucceeded_step)

lemma frame_init: "frame tcs (init tcs st)"
  by (simp add: frame_def init_def)

lemma finished_nth: "list_all finished ws \<Longrightarrow> w < length ws \<Longrightarrow> finished (ws ! w)"
  by (simp add: list_all_length)

lemma quiescent_stuck:
  assumes "quiescent cx s" "active s = None"
  shows "\<not> moves cx s s'"
proof
  assume "moves cx s s'"
  then show False
    using assms
  proof (induction rule: moves.induct)
    case (spawn s)
    then show ?case by (simp add: quiescent_def)
  next
    case (fulfilled s w i k v)
    with finished_nth[of "workers s" w] show ?case by (simp add: quiescent_def)
  next
    case (gave_up s w i k msg)
    with finished_nth[of "workers s" w] show ?case by (simp add: quiescent_def)
  next
    case (backed_off s w i k msg r)
    with finished_nth[of "workers s" w] show ?case by (simp add: quiescent_def)
  next
    case (retried s w i k)
    with finished_nth[of "workers s" w] show ?case by (simp add: quiescent_def)
  next
    case (fell_through s w i k)
    with finished_nth[of "workers s" w] show ?case by (simp add: quiescent_def)
  qed simp_all
qed

lemma quiescent_run: "quiescent cx s \<Longrightarrow> active s = None \<Longrightarrow> run cx evs s = s"
proof (induction evs)
  case Nil
  then show ?case by simp
next
  case (Cons e evs)
  with step_moves[of cx e s] quiescent_stuck[of cx s "step cx e s"] show ?case by auto
qed

definition nothing_ran :: "ContextEntry list \<Rightarrow> state \<Rightarrow> bool" where
  "nothing_ran st s \<longleftrightarrow>
     calls s = [] \<and> log s = [] \<and> store s = st \<and> allSucceeded s \<and> rejection s = None \<and>
     (\<forall>w < length (workers s). workers s ! w = AtClaim \<or> workers s ! w = Returned)"

lemma nothing_at:
  "nothing_ran st s \<Longrightarrow> w < length (workers s)
     \<Longrightarrow> workers s ! w = AtClaim \<or> workers s ! w = Returned"
  by (simp add: nothing_ran_def)

lemma nothing_moves: "moves cx s s' \<Longrightarrow> wf cx n s \<Longrightarrow> nothing_ran st s \<Longrightarrow> nothing_ran st s'"
proof (induction rule: moves.induct)
  case (spawn s)
  then show ?case by (auto simp: nothing_ran_def nth_append less_Suc_eq)
next
  case (leave s w)
  then show ?case by (auto simp: nothing_ran_def nth_upd)
next
  case (claim s w)
  then show ?case by (simp add: nothing_ran_def)
next
  case (fulfilled s w i k v)
  with nothing_at[of st s w] show ?case by simp
next
  case (gave_up s w i k msg)
  with nothing_at[of st s w] show ?case by simp
next
  case (backed_off s w i k msg r)
  with nothing_at[of st s w] show ?case by simp
next
  case (retried s w i k)
  with nothing_at[of st s w] show ?case by simp
next
  case (fell_through s w i k)
  with nothing_at[of st s w] show ?case by simp
qed (use nothing_at[of st] wf_active_lt[of cx n] in \<open>fastforce+\<close>)

lemma nothing_init: "nothing_ran st (init [] st)"
  by (simp add: nothing_ran_def init_def)

lemma nothing_run: "nothing_ran st (run cx evs (init [] st))"
  using run_invariant[of cx 0 "nothing_ran st" "init [] st" evs] nothing_moves wf_init[of cx "[]" st]
    nothing_init
  by auto

lemma nothing_promise:
  "nothing_ran st s \<Longrightarrow> promise_of cx s = Unsettled \<or> promise_of cx s = Resolved True"
  by (simp add: nothing_ran_def promise_of_def)

lemma empty_two_ticks:
  assumes "toolCalls (task cx) = Some []"
  shows "run cx (Tick # Tick # evs) (init [] st)
     = (init [] st)\<lparr>nextIndex := 1, workers := [Returned]\<rparr>"
proof -
  have p: "poolSize cx = 1" using assms by (simp add: poolSize_def callCount_def)
  let ?s2 = "(init [] st)\<lparr>nextIndex := 1, workers := [Returned]\<rparr>"
  have s2: "step cx Tick (step cx Tick (init [] st)) = ?s2"
    by (simp add: p tick_def exec_def init_def goto_def)
  have "quiescent cx ?s2" "active ?s2 = None" by (simp_all add: quiescent_def p init_def)
  from quiescent_run[OF this] s2 show ?thesis by simp
qed

lemma quiescent_settled:
  assumes "rejections_ok s" "quiescent cx s"
  shows "promise_of cx s \<noteq> Unsettled"
proof (cases "rejection s")
  case None
  with assms(1) have nr: "\<forall>w < length (workers s). \<forall>e. workers s ! w \<noteq> Rejected e"
    by (simp add: rejections_ok_def)
  have "workers s ! w = Returned" if w: "w < length (workers s)" for w
  proof -
    from assms(2) w have "finished (workers s ! w)" by (simp add: quiescent_def finished_nth)
    with nr w show ?thesis by (cases "workers s ! w") simp_all
  qed
  then have "\<forall>p \<in> set (workers s). p = Returned" by (auto simp: in_set_conv_nth)
  with assms(2) None show ?thesis by (simp add: promise_of_def quiescent_def)
next
  case (Some e)
  then show ?thesis by (simp add: promise_of_def)
qed


subsection \<open>Attempts\<close>

text \<open>The attempt numbers of the invocations of the call \<open>i\<close>, in the order of the trace.\<close>

fun attempts :: "nat \<Rightarrow> effect list \<Rightarrow> nat list" where
  "attempts i [] = []"
| "attempts i (Invoked j k # l) = (if j = i then k # attempts i l else attempts i l)"
| "attempts i (x # l) = attempts i l"

lemma attempts_append [simp]: "attempts i (a @ b) = attempts i a @ attempts i b"
  by (induction i a rule: attempts.induct) simp_all

lemma attempts_notes [simp]:
  "attempts i (update_note cx j st) = []"
  "attempts i (error_note cx j e s) = []"
  by (simp_all add: update_note_def error_note_def split: option.splits)

text \<open>The call a worker is invoking and the attempts it has made for it.\<close>

fun made :: "pc \<Rightarrow> (nat \<times> nat) option" where
  "made (AtRunningCb i) = Some (i, 0)"
| "made (AtTry i) = Some (i, 0)"
| "made (Awaiting i k) = Some (i, k)"
| "made (Backoff i k) = Some (i, k)"
| "made p = None"

definition first_attempts :: "nat \<Rightarrow> nat list" where
  "first_attempts k = [1..<Suc k]"

lemma first_attempts_simps [simp]:
  "first_attempts 0 = []"
  "first_attempts (Suc k) = first_attempts k @ [Suc k]"
  by (simp_all add: first_attempts_def)

fun budget_ok :: "pc \<Rightarrow> bool" where
  "budget_ok (Awaiting i k) = (1 \<le> k \<and> k \<le> 3)"
| "budget_ok (Backoff i k) = (1 \<le> k \<and> k < 3)"
| "budget_ok p = True"

lemma made_holds: "made p = Some (i, k) \<Longrightarrow> holds p = Some i"
  by (cases p) simp_all

definition tries_ok :: "state \<Rightarrow> bool" where
  "tries_ok s \<longleftrightarrow>
     (\<forall>i. \<exists>j \<le> 3. attempts i (log s) = first_attempts j) \<and>
     (\<forall>w < length (workers s). budget_ok (workers s ! w) \<and>
        (\<forall>i k. made (workers s ! w) = Some (i, k) \<longrightarrow> attempts i (log s) = first_attempts k)) \<and>
     (\<forall>i \<ge> nextIndex s. attempts i (log s) = [])"

lemma tries_goto_keep:
  assumes "tries_ok s" "w < length (workers s)"
    and "workers s1 = workers s" "nextIndex s \<le> nextIndex s1"
    and "\<And>i. attempts i (log s1) = attempts i (log s)"
    and "\<And>i k. made p = Some (i, k) \<Longrightarrow> made (workers s ! w) = Some (i, k)" "budget_ok p"
  shows "tries_ok (goto w p s1)"
proof -
  have a: "\<forall>i. \<exists>j \<le> 3. attempts i (log (goto w p s1)) = first_attempts j"
    using assms(1,5) by (simp add: tries_ok_def)
  have b: "\<forall>v < length (workers (goto w p s1)). budget_ok (workers (goto w p s1) ! v) \<and>
        (\<forall>i k. made (workers (goto w p s1) ! v) = Some (i, k)
            \<longrightarrow> attempts i (log (goto w p s1)) = first_attempts k)"
  proof (intro allI impI)
    fix v assume v: "v < length (workers (goto w p s1))"
    show "budget_ok (workers (goto w p s1) ! v) \<and>
        (\<forall>i k. made (workers (goto w p s1) ! v) = Some (i, k)
            \<longrightarrow> attempts i (log (goto w p s1)) = first_attempts k)"
    proof (cases "v = w")
      case True
      have "attempts i (log (goto w p s1)) = first_attempts k" if "made p = Some (i, k)" for i k
        using assms(6)[OF that] assms(1,2,5) by (simp add: tries_ok_def)
      with True assms(2,3,7) show ?thesis by simp
    next
      case False
      with v assms(1,3,5) show ?thesis by (simp add: tries_ok_def)
    qed
  qed
  have c: "\<forall>i \<ge> nextIndex (goto w p s1). attempts i (log (goto w p s1)) = []"
    using assms(1,4,5) by (simp add: tries_ok_def)
  from a b c show ?thesis unfolding tries_ok_def by blast
qed

lemma tries_goto_invoke:
  assumes "tries_ok s" "wf cx n s" "w < length (workers s)"
    and "made (workers s ! w) = Some (i, k)" "k < 3"
  shows "tries_ok (goto w (Awaiting i (Suc k)) (emit (Invoked i (Suc k)) s))"
proof -
  let ?s' = "goto w (Awaiting i (Suc k)) (emit (Invoked i (Suc k)) s)"
  have here: "attempts i (log s) = first_attempts k" using assms(1,3,4) by (simp add: tries_ok_def)
  have at_i: "attempts i (log ?s') = first_attempts (Suc k)" using here by simp
  have other: "attempts j (log ?s') = attempts j (log s)" if "j \<noteq> i" for j using that by simp
  have inext: "i < nextIndex s" using assms(2,3,4) made_holds[OF assms(4)] by (auto simp: wf_def)
  have a: "\<forall>j. \<exists>m \<le> 3. attempts j (log ?s') = first_attempts m"
  proof
    fix j show "\<exists>m \<le> 3. attempts j (log ?s') = first_attempts m"
    proof (cases "j = i")
      case True
      with at_i assms(5) show ?thesis by (intro exI[of _ "Suc k"]) simp
    next
      case False
      with other[OF False] assms(1) show ?thesis by (simp add: tries_ok_def)
    qed
  qed
  have b: "\<forall>v < length (workers ?s'). budget_ok (workers ?s' ! v) \<and>
        (\<forall>j m. made (workers ?s' ! v) = Some (j, m) \<longrightarrow> attempts j (log ?s') = first_attempts m)"
  proof (intro allI impI)
    fix v assume v: "v < length (workers ?s')"
    show "budget_ok (workers ?s' ! v) \<and>
        (\<forall>j m. made (workers ?s' ! v) = Some (j, m) \<longrightarrow> attempts j (log ?s') = first_attempts m)"
    proof (cases "v = w")
      case True
      with assms(3,5) at_i show ?thesis by simp
    next
      case False
      have bo: "budget_ok (workers s ! v)" using v assms(1) by (simp add: tries_ok_def)
      have "attempts j (log ?s') = first_attempts m" if m: "made (workers s ! v) = Some (j, m)" for j m
      proof -
        have "j \<noteq> i"
        proof
          assume "j = i"
          with m made_holds[OF m] made_holds[OF assms(4)] assms(2,3) v
          have "v = w" unfolding wf_def by auto
          with False show False by simp
        qed
        from other[OF this] m v assms(1) show ?thesis by (simp add: tries_ok_def)
      qed
      with False v bo show ?thesis by simp
    qed
  qed
  have c: "\<forall>j \<ge> nextIndex ?s'. attempts j (log ?s') = []"
    using assms(1) inext by (simp add: tries_ok_def)
  from a b c show ?thesis unfolding tries_ok_def by blast
qed

lemma tries_at:
  "tries_ok s \<Longrightarrow> w < length (workers s) \<Longrightarrow> budget_ok (workers s ! w)"
  by (simp add: tries_ok_def)

lemma tries_spawn:
  assumes "tries_ok s"
  shows "tries_ok (s\<lparr>workers := workers s @ [AtClaim], active := a\<rparr>)"
  using assms by (auto simp: tries_ok_def nth_append less_Suc_eq)

lemma tries_claim:
  assumes "tries_ok s" "w < length (workers s)"
  shows "tries_ok (goto w (AtRunningCb (nextIndex s))
           (emit (Claimed w (nextIndex s)) (s\<lparr>nextIndex := Suc (nextIndex s)\<rparr>)))"
proof -
  let ?s' = "goto w (AtRunningCb (nextIndex s))
           (emit (Claimed w (nextIndex s)) (s\<lparr>nextIndex := Suc (nextIndex s)\<rparr>))"
  have l: "\<And>i. attempts i (log ?s') = attempts i (log s)" by simp
  have a: "\<forall>i. \<exists>j \<le> 3. attempts i (log ?s') = first_attempts j"
    using assms(1) l by (simp add: tries_ok_def)
  have b: "\<forall>v < length (workers ?s'). budget_ok (workers ?s' ! v) \<and>
        (\<forall>i k. made (workers ?s' ! v) = Some (i, k) \<longrightarrow> attempts i (log ?s') = first_attempts k)"
  proof (intro allI impI)
    fix v assume v: "v < length (workers ?s')"
    show "budget_ok (workers ?s' ! v) \<and>
        (\<forall>i k. made (workers ?s' ! v) = Some (i, k) \<longrightarrow> attempts i (log ?s') = first_attempts k)"
    proof (cases "v = w")
      case True
      with assms show ?thesis by (simp add: tries_ok_def)
    next
      case False
      with v assms(1) show ?thesis by (simp add: tries_ok_def)
    qed
  qed
  have c: "\<forall>i \<ge> nextIndex ?s'. attempts i (log ?s') = []"
    using assms(1) by (simp add: tries_ok_def)
  from a b c show ?thesis unfolding tries_ok_def by blast
qed

lemma turn_lt: "wf cx n s \<Longrightarrow> turn cx s w \<Longrightarrow> w < length (workers s)"
  using turn_others by blast

lemma tries_moves: "moves cx s s' \<Longrightarrow> wf cx n s \<Longrightarrow> tries_ok s \<Longrightarrow> tries_ok s'"
proof (induction rule: moves.induct)
  case (spawn s)
  then show ?case by (simp add: tries_spawn)
next
  case (claim s w)
  then show ?case by (simp add: tries_claim wf_active_lt[of cx n])
next
  case (invoke s w i t)
  have w: "w < length (workers s)" using invoke by (simp add: wf_active_lt[of cx n])
  from tries_goto_invoke[OF invoke(5,4) w, of i 0] invoke(2) show ?case by simp
next
  case (retried s w i k)
  have "k < 3" using retried(4) by (simp add: maxAttempts_def)
  with tries_goto_invoke[OF retried(6,5,2), of i k] retried(3) show ?case by simp
next
  case (backed_off s w i k msg r)
  from tries_at[OF backed_off(7,2)] backed_off(3,5) have "budget_ok (Backoff i k)"
    by (simp add: maxAttempts_def)
  with backed_off show ?case by (intro tries_goto_keep) auto
next
  case (running_ok s w i)
  have w: "w < length (workers s)" using running_ok by (simp add: wf_active_lt[of cx n])
  show ?case
    by (rule tries_goto_keep[where s = s]) (use running_ok w in simp_all)
qed (rule tries_goto_keep; auto simp: wf_active_lt[of cx n])+


lemma tries_init: "tries_ok (init tcs st)"
  by (auto simp: tries_ok_def init_def intro: exI[of _ 0])

lemma tries_run: "tries_ok (run cx evs (init tcs st))"
  using run_invariant[of cx "length tcs" tries_ok "init tcs st" evs]
    tries_moves wf_init tries_init
  by blast



subsection \<open>The jitter\<close>




























text \<open>What a run left behind: the promise, the statuses and the attempts made for the first call.\<close>

definition summary :: "Outcome \<Rightarrow> promise \<times> status list \<times> nat list" where
  "summary out =
     (promise out,
      (case toolCalls (task_after out) of None \<Rightarrow> [] | Some cs \<Rightarrow> map status cs),
      attempts 0 (effects out))"





subsection \<open>Calls in progress\<close>

text \<open>
  The indices that were given a status, the indices a worker claimed, and the calls
  that are running according to the trace: claimed and not yet given a status.
\<close>

fun status_sets :: "effect list \<Rightarrow> nat list" where
  "status_sets [] = []"
| "status_sets (StatusSet i st # l) = i # status_sets l"
| "status_sets (x # l) = status_sets l"

fun claims_by :: "nat \<Rightarrow> effect list \<Rightarrow> nat list" where
  "claims_by w [] = []"
| "claims_by w (Claimed v i # l) = (if v = w then i # claims_by w l else claims_by w l)"
| "claims_by w (x # l) = claims_by w l"

definition running_calls :: "effect list \<Rightarrow> nat list" where
  "running_calls l = filter (\<lambda>i. i \<notin> set (status_sets l)) (claimed l)"

lemma status_sets_append [simp]: "status_sets (a @ b) = status_sets a @ status_sets b"
  by (induction a rule: status_sets.induct) simp_all

lemma claims_by_append [simp]: "claims_by w (a @ b) = claims_by w a @ claims_by w b"
  by (induction w a rule: claims_by.induct) simp_all

lemma notes_plain [simp]:
  "status_sets (update_note cx j st) = []"
  "status_sets (error_note cx j e s) = []"
  "claims_by w (update_note cx j st) = []"
  "claims_by w (error_note cx j e s) = []"
  by (simp_all add: update_note_def error_note_def split: option.splits)

lemma claimed_claims_by: "i \<in> set (claimed l) \<longleftrightarrow> (\<exists>w. i \<in> set (claims_by w l))"
  by (induction l rule: claimed.induct) auto

text \<open>A worker that holds no call whose status is still to be written.\<close>

fun at_rest :: "pc \<Rightarrow> bool" where
  "at_rest AtClaim = True"
| "at_rest Returned = True"
| "at_rest (AtCompletedCb i) = True"
| "at_rest (AtFailedCb i e) = True"
| "at_rest (AtErrorCb i e) = True"
| "at_rest p = False"

definition open_inv :: "effect list \<Rightarrow> pc list \<Rightarrow> bool" where
  "open_inv l ws \<longleftrightarrow>
     (\<forall>w \<ge> length ws. claims_by w l = []) \<and>
     (\<forall>w < length ws. \<forall>i \<in> set (butlast (claims_by w l)). i \<in> set (status_sets l)) \<and>
     (\<forall>w < length ws. at_rest (ws ! w) \<longrightarrow> (\<forall>i \<in> set (claims_by w l). i \<in> set (status_sets l))) \<and>
     (\<forall>w < length ws. \<forall>i. holds (ws ! w) = Some i \<longrightarrow> claims_by w l \<noteq> [] \<and> last (claims_by w l) = i)"

lemma open_inv_goto:
  assumes "open_inv l ws" "w < length ws"
    and "\<And>v. claims_by v l' = claims_by v l" "set (status_sets l) \<subseteq> set (status_sets l')"
    and "\<And>i. holds p = Some i \<Longrightarrow> holds (ws ! w) = Some i"
    and "at_rest p \<Longrightarrow> at_rest (ws ! w) \<or> (\<exists>i. holds (ws ! w) = Some i \<and> i \<in> set (status_sets l'))"
  shows "open_inv l' (ws[w := p])"
proof -
  have a: "\<forall>v \<ge> length (ws[w := p]). claims_by v l' = []"
    using assms(1,3) by (simp add: open_inv_def)
  have b: "\<forall>v < length (ws[w := p]). \<forall>i \<in> set (butlast (claims_by v l')). i \<in> set (status_sets l')"
    using assms(1,3,4) by (auto simp: open_inv_def)
  have c: "\<forall>v < length (ws[w := p]). at_rest (ws[w := p] ! v)
      \<longrightarrow> (\<forall>i \<in> set (claims_by v l'). i \<in> set (status_sets l'))"
  proof (intro allI impI ballI)
    fix v i
    assume v: "v < length (ws[w := p])" and r: "at_rest (ws[w := p] ! v)"
      and i: "i \<in> set (claims_by v l')"
    show "i \<in> set (status_sets l')"
    proof (cases "v = w")
      case False
      with v r i assms(1,3,4) show ?thesis by (auto simp: open_inv_def)
    next
      case True
      with r assms(2) have "at_rest p" by simp
      from assms(6)[OF this] show ?thesis
      proof
        assume "at_rest (ws ! w)"
        with True i assms(1,2,3,4) show ?thesis by (auto simp: open_inv_def)
      next
        assume "\<exists>j. holds (ws ! w) = Some j \<and> j \<in> set (status_sets l')"
        then obtain j where j: "holds (ws ! w) = Some j" "j \<in> set (status_sets l')" by blast
        with assms(1,2) have ne: "claims_by w l \<noteq> []" and la: "last (claims_by w l) = j"
          by (auto simp: open_inv_def)
        from i True assms(3) have "i \<in> set (claims_by w l)" by simp
        with ne have "i \<in> set (butlast (claims_by w l)) \<or> i = last (claims_by w l)"
          by (metis append_butlast_last_id in_set_conv_decomp_first rotate1.simps(2) set_ConsD set_rotate1)
        with la j(2) assms(1,2,4) show ?thesis by (auto simp: open_inv_def)
      qed
    qed
  qed
  have d: "\<forall>v < length (ws[w := p]). \<forall>i. holds (ws[w := p] ! v) = Some i
      \<longrightarrow> claims_by v l' \<noteq> [] \<and> last (claims_by v l') = i"
  proof (intro allI impI)
    fix v i
    assume v: "v < length (ws[w := p])" and h: "holds (ws[w := p] ! v) = Some i"
    show "claims_by v l' \<noteq> [] \<and> last (claims_by v l') = i"
    proof (cases "v = w")
      case True
      with h assms(2) have "holds p = Some i" by simp
      from assms(5)[OF this] assms(1,2,3) True show ?thesis by (simp add: open_inv_def)
    next
      case False
      with v h assms(1,3) show ?thesis by (simp add: open_inv_def)
    qed
  qed
  from a b c d show ?thesis unfolding open_inv_def by blast
qed


lemma open_inv_spawn:
  assumes "open_inv l ws"
  shows "open_inv l (ws @ [AtClaim])"
  using assms unfolding open_inv_def
  by (auto simp: nth_append less_Suc_eq)

lemma open_inv_claim:
  assumes "open_inv l ws" "w < length ws" "ws ! w = AtClaim"
  shows "open_inv (l @ [Claimed w k]) (ws[w := AtRunningCb k])"
proof -
  let ?l = "l @ [Claimed w k]"
  have old: "\<forall>i \<in> set (claims_by w l). i \<in> set (status_sets l)"
    using assms by (simp add: open_inv_def)
  have a: "\<forall>v \<ge> length (ws[w := AtRunningCb k]). claims_by v ?l = []"
    using assms(1,2) by (simp add: open_inv_def)
  have b: "\<forall>v < length (ws[w := AtRunningCb k]). \<forall>i \<in> set (butlast (claims_by v ?l)).
      i \<in> set (status_sets ?l)"
    using assms(1) old by (auto simp: open_inv_def)
  have c: "\<forall>v < length (ws[w := AtRunningCb k]). at_rest (ws[w := AtRunningCb k] ! v)
      \<longrightarrow> (\<forall>i \<in> set (claims_by v ?l). i \<in> set (status_sets ?l))"
    using assms(1,2) by (auto simp: open_inv_def nth_upd)
  have d: "\<forall>v < length (ws[w := AtRunningCb k]). \<forall>i. holds (ws[w := AtRunningCb k] ! v) = Some i
      \<longrightarrow> claims_by v ?l \<noteq> [] \<and> last (claims_by v ?l) = i"
    using assms(1,2) by (auto simp: open_inv_def nth_upd)
  from a b c d show ?thesis unfolding open_inv_def by blast
qed

definition open_ok :: "state \<Rightarrow> bool" where
  "open_ok s \<longleftrightarrow> open_inv (log s) (workers s)"

lemma open_goto:
  assumes "open_ok s" "w < length (workers s)" "workers s1 = workers s"
    and "\<And>v. claims_by v (log s1) = claims_by v (log s)"
    and "set (status_sets (log s)) \<subseteq> set (status_sets (log s1))"
    and "\<And>i. holds p = Some i \<Longrightarrow> holds (workers s ! w) = Some i"
    and "at_rest p \<Longrightarrow> at_rest (workers s ! w) \<or>
           (\<exists>i. holds (workers s ! w) = Some i \<and> i \<in> set (status_sets (log s1)))"
  shows "open_ok (goto w p s1)"
  unfolding open_ok_def
  using open_inv_goto[of "log s" "workers s" w "log s1" p] assms
  by (simp add: open_ok_def)

lemma open_moves: "moves cx s s' \<Longrightarrow> wf cx n s \<Longrightarrow> open_ok s \<Longrightarrow> open_ok s'"
proof (induction rule: moves.induct)
  case (spawn s)
  then show ?case by (simp add: open_ok_def open_inv_spawn)
next
  case (claim s w)
  then show ?case by (simp add: open_ok_def open_inv_claim wf_active_lt[of cx n])
qed ((rule open_goto, assumption); auto simp: wf_active_lt[of cx n])+

lemma open_init: "open_ok (init tcs st)"
  by (simp add: open_ok_def open_inv_def init_def)

lemma open_run: "open_ok (run cx evs (init tcs st))"
  using run_invariant[of cx "length tcs" open_ok "init tcs st" evs]
    open_moves wf_init open_init
  by blast


lemma claims_init: "claims_ok n (init tcs st)"
  by (simp add: claims_ok_def init_def)

lemma claims_run: "claims_ok (length tcs) (run cx evs (init tcs st))"
  using run_invariant[of cx "length tcs" "claims_ok (length tcs)" "init tcs st" evs]
    claims_moves wf_init claims_init
  by blast

lemma in_butlast_or_last: "x \<in> set xs \<Longrightarrow> x \<in> set (butlast xs) \<or> x = last xs"
  by (induction xs) (auto split: if_splits)

lemma running_owner:
  assumes "open_inv l ws" "i \<in> set (running_calls l)"
  shows "\<exists>w < length ws. last (claims_by w l) = i"
proof -
  from assms(2) have c: "i \<in> set (claimed l)" and o: "i \<notin> set (status_sets l)"
    by (simp_all add: running_calls_def)
  from c obtain w where w: "i \<in> set (claims_by w l)" by (auto simp: claimed_claims_by)
  have wl: "w < length ws"
  proof (rule ccontr)
    assume "\<not> w < length ws"
    with assms(1) have "claims_by w l = []" by (simp add: open_inv_def)
    with w show False by simp
  qed
  from in_butlast_or_last[OF w] have "i = last (claims_by w l)"
  proof
    assume "i \<in> set (butlast (claims_by w l))"
    with assms(1) wl have "i \<in> set (status_sets l)" by (auto simp: open_inv_def)
    with o show ?thesis by simp
  qed
  with wl show ?thesis by auto
qed

lemma running_bound:
  assumes "open_inv l ws" "distinct (claimed l)"
  shows "length (running_calls l) \<le> length ws"
proof -
  have "set (running_calls l) \<subseteq> (\<lambda>w. last (claims_by w l)) ` {..<length ws}"
    using running_owner[OF assms(1)] by auto
  then have "card (set (running_calls l)) \<le> card ((\<lambda>w. last (claims_by w l)) ` {..<length ws})"
    by (intro card_mono) simp_all
  also have "\<dots> \<le> card {..<length ws}" by (rule card_image_le) simp
  finally have "card (set (running_calls l)) \<le> length ws" by simp
  moreover have "distinct (running_calls l)" using assms(2) by (simp add: running_calls_def)
  ultimately show ?thesis by (simp add: distinct_card)
qed

lemma running_run:
  "length (running_calls (log (run cx evs (init tcs st)))) \<le> poolSize cx"
proof -
  let ?s = "run cx evs (init tcs st)"
  have "distinct (claimed (log ?s))"
    using claims_run[where cx = cx and evs = evs and tcs = tcs and st = st] by (simp add: claims_ok_def)
  from running_bound[OF _ this, of "workers ?s"] open_run[where cx = cx and evs = evs and tcs = tcs and st = st]
  have "length (running_calls (log ?s)) \<le> length (workers ?s)" by (simp add: open_ok_def)
  moreover have "length (workers ?s) \<le> poolSize cx"
    using wf_run[OF wf_init[of cx tcs st], of evs] by (simp add: wf_def)
  ultimately show ?thesis by simp
qed

lemma running_none_at_rest:
  assumes "open_inv l ws" "\<forall>w < length ws. at_rest (ws ! w)"
  shows "running_calls l = []"
proof -
  have "i \<in> set (status_sets l)" if "i \<in> set (claimed l)" for i
  proof -
    from that obtain w where w: "i \<in> set (claims_by w l)" by (auto simp: claimed_claims_by)
    have "w < length ws"
    proof (rule ccontr)
      assume "\<not> w < length ws"
      with assms(1) have "claims_by w l = []" by (simp add: open_inv_def)
      with w show False by simp
    qed
    with assms w show ?thesis by (auto simp: open_inv_def)
  qed
  then show ?thesis by (auto simp: running_calls_def filter_empty_conv)
qed


definition never_running :: "state \<Rightarrow> bool" where
  "never_running s \<longleftrightarrow> (\<forall>tc \<in> set (calls s). status tc \<noteq> Running)"

lemma never_running_frame [simp]:
  "never_running (goto w p s) = never_running s"
  "never_running (emit x s) = never_running s"
  "never_running (s\<lparr>store := st'\<rparr>) = never_running s"
  "never_running (s\<lparr>allSucceeded := b\<rparr>) = never_running s"
  "never_running (s\<lparr>nextIndex := k\<rparr>) = never_running s"
  "never_running (snd (fire_update cx j st s)) = never_running s"
  "never_running (snd (fire_error cx j e s)) = never_running s"
  by (simp_all add: never_running_def)

lemma never_running_set_status:
  "never_running s \<Longrightarrow> st \<noteq> Running \<Longrightarrow> never_running (set_status i st s)"
  unfolding never_running_def
  using set_update_subset_insert[of "calls s" i "(calls s ! i)\<lparr>status := st\<rparr>"]
  by auto

lemma never_running_moves: "moves cx s s' \<Longrightarrow> never_running s \<Longrightarrow> never_running s'"
proof (induction rule: moves.induct)
  case (spawn s)
  then show ?case by (simp add: never_running_def)
qed (simp_all add: never_running_set_status)

lemma never_running_run: "never_running s \<Longrightarrow> never_running (run cx evs s)"
proof (induction evs arbitrary: s)
  case Nil
  then show ?case by simp
next
  case (Cons e evs)
  have "never_running (step cx e s)"
    using step_moves[of cx e s] never_running_moves[of cx s "step cx e s"] Cons.prems by auto
  with Cons.IH show ?case by simp
qed

lemma nextIndex_step: "nextIndex s \<le> nextIndex (step cx e s)"
  using step_moves[of cx e s] nextIndex_moves[of cx s "step cx e s"] by auto

lemma nextIndex_run: "nextIndex s \<le> nextIndex (run cx evs s)"
proof (induction evs arbitrary: s)
  case Nil
  then show ?case by simp
next
  case (Cons e evs)
  from nextIndex_step[of s cx e] Cons[of "step cx e s"] show ?case by simp
qed

lemma resolved_all_claimed:
  assumes "promise_of cx (run cx evs (init tcs st)) = Resolved b"
  shows "claimed (log (run cx evs (init tcs st))) = [0..<length tcs]"
    and "running_calls (log (run cx evs (init tcs st))) = []"
proof -
  let ?s = "run cx evs (init tcs st)"
  from assms have full: "length (workers ?s) = poolSize cx"
    and ret: "\<forall>p \<in> set (workers ?s). p = Returned"
    by (auto simp: promise_of_def split: option.splits if_splits)
  from full poolSize_pos[of cx] have "0 < length (workers ?s)" by simp
  moreover from ret have r: "\<forall>w < length (workers ?s). workers ?s ! w = Returned" by simp
  ultimately have "\<exists>w < length (workers ?s). workers ?s ! w = Returned" by blast
  with verdict_run[of tcs cx evs st] have "length tcs \<le> nextIndex ?s"
    by (simp add: verdict_ok_def)
  with claims_run[of tcs cx evs st] show "claimed (log ?s) = [0..<length tcs]"
    by (simp add: claims_ok_def)
  from r have "\<forall>w < length (workers ?s). at_rest (workers ?s ! w)" by simp
  from running_none_at_rest[OF _ this] open_run[of cx evs tcs st]
  show "running_calls (log ?s) = []" by (simp add: open_ok_def)
qed

lemma quiet_schedule_resolves:
  assumes "observers_return cx"
  shows "promise_of cx (run cx (schedule cx env (2 * poolSize cx + 13 * length tcs) (init tcs st)) (init tcs st))
     = Resolved (allSucceeded (run cx (schedule cx env (2 * poolSize cx + 13 * length tcs) (init tcs st))
         (init tcs st)))"
proof -
  let ?s = "run cx (schedule cx env (2 * poolSize cx + 13 * length tcs) (init tcs st)) (init tcs st)"
  have q: "quiescent cx ?s"
    by (rule schedule_quiescent[OF wf_init]) (simp add: potential_init)
  have r: "rejection ?s = None" by (rule quiet_run[OF assms]) (simp add: init_def)
  from quiescent_settled[OF rejections_run q] r show ?thesis
    by (simp add: promise_of_def split: if_splits)
qed

subsection \<open>Status writes\<close>

definition completed_returns :: "Invocation \<Rightarrow> bool" where
  "completed_returns cx \<longleftrightarrow>
     (\<forall>f tid i. observer_update cx = Some f \<longrightarrow> f tid i Completed = Returns)"

lemma completed_returns_fire:
  "completed_returns cx \<Longrightarrow> fst (fire_update cx i Completed s) = Returns"
  by (auto simp: completed_returns_def fire_update_def split: option.splits)

text \<open>Calls not yet claimed and calls in progress still have the status they started with.\<close>

definition fresh_ok :: "nat \<Rightarrow> state \<Rightarrow> bool" where
  "fresh_ok n s \<longleftrightarrow>
     (\<forall>i < n. nextIndex s \<le> i \<longrightarrow> status (calls s ! i) = Pending) \<and>
     (\<forall>w < length (workers s). \<forall>i. pre (workers s ! w) = Some i \<longrightarrow> status (calls s ! i) = Pending)"

lemma fresh_goto_keep:
  assumes "fresh_ok n s" "w < length (workers s)"
    and "workers s1 = workers s" "calls s1 = calls s" "nextIndex s1 = nextIndex s"
    and "\<And>i. pre p = Some i \<Longrightarrow> pre (workers s ! w) = Some i"
  shows "fresh_ok n (goto w p s1)"
  unfolding fresh_ok_def
proof (intro conjI allI impI)
  fix i assume "i < n" "nextIndex (goto w p s1) \<le> i"
  with assms(1,4,5) show "status (calls (goto w p s1) ! i) = Pending" by (simp add: fresh_ok_def)
next
  fix v i assume v: "v < length (workers (goto w p s1))" and p: "pre (workers (goto w p s1) ! v) = Some i"
  show "status (calls (goto w p s1) ! i) = Pending"
  proof (cases "v = w")
    case True
    with p assms(2,3) have "pre p = Some i" by simp
    from assms(6)[OF this] assms(1,2,4) show ?thesis by (simp add: fresh_ok_def)
  next
    case False
    with v p assms(1,3,4) show ?thesis by (simp add: fresh_ok_def)
  qed
qed

lemma fresh_goto_write:
  assumes "fresh_ok n s" "wf cx n s" "w < length (workers s)"
    and "holds (workers s ! w) = Some i" "pre p = None"
    and "workers s1 = workers s" "calls s1 = calls s" "nextIndex s1 = nextIndex s"
  shows "fresh_ok n (goto w p (set_status i st s1))"
  unfolding fresh_ok_def
proof (intro conjI allI impI)
  have il: "i < nextIndex s" "i < n" using assms(2,3,4) by (auto simp: wf_def)
  fix j assume "j < n" "nextIndex (goto w p (set_status i st s1)) \<le> j"
  with assms(1,7,8) il show "status (calls (goto w p (set_status i st s1)) ! j) = Pending"
    by (simp add: fresh_ok_def)
next
  fix v j assume v: "v < length (workers (goto w p (set_status i st s1)))"
    and p: "pre (workers (goto w p (set_status i st s1)) ! v) = Some j"
  show "status (calls (goto w p (set_status i st s1)) ! j) = Pending"
  proof (cases "v = w")
    case True
    with p assms(3,5,6) show ?thesis by simp
  next
    case False
    with v p assms(6) have pv: "pre (workers s ! v) = Some j" by simp
    have "j \<noteq> i"
    proof
      assume "j = i"
      with pv pre_holds[OF pv] assms(2,3,4) v assms(6) have "v = w" unfolding wf_def by auto
      with False show False by simp
    qed
    with pv v assms(1,6,7) show ?thesis by (simp add: fresh_ok_def)
  qed
qed

lemma fresh_spawn:
  assumes "fresh_ok n s"
  shows "fresh_ok n (s\<lparr>workers := workers s @ [AtClaim], active := a\<rparr>)"
  unfolding fresh_ok_def
proof (intro conjI allI impI)
  fix i assume "i < n" "nextIndex (s\<lparr>workers := workers s @ [AtClaim], active := a\<rparr>) \<le> i"
  with assms show "status (calls (s\<lparr>workers := workers s @ [AtClaim], active := a\<rparr>) ! i) = Pending"
    by (simp add: fresh_ok_def)
next
  fix v i
  assume v: "v < length (workers (s\<lparr>workers := workers s @ [AtClaim], active := a\<rparr>))"
    and p: "pre (workers (s\<lparr>workers := workers s @ [AtClaim], active := a\<rparr>) ! v) = Some i"
  show "status (calls (s\<lparr>workers := workers s @ [AtClaim], active := a\<rparr>) ! i) = Pending"
  proof (cases "v < length (workers s)")
    case True
    with p assms show ?thesis by (simp add: fresh_ok_def nth_append)
  next
    case False
    with v have "v = length (workers s)" by simp
    with p show ?thesis by simp
  qed
qed

lemma fresh_bump:
  assumes "fresh_ok n s" "w < length (workers s)" "pre (workers s ! w) = None"
    and "pre p = None \<or> (pre p = Some (nextIndex s) \<and> nextIndex s < n)"
    and "workers s1 = workers s" "calls s1 = calls s" "nextIndex s1 = Suc (nextIndex s)"
  shows "fresh_ok n (goto w p s1)"
  unfolding fresh_ok_def
proof (intro conjI allI impI)
  fix i assume "i < n" "nextIndex (goto w p s1) \<le> i"
  with assms(1,6,7) show "status (calls (goto w p s1) ! i) = Pending" by (simp add: fresh_ok_def)
next
  fix v i assume v: "v < length (workers (goto w p s1))" and p: "pre (workers (goto w p s1) ! v) = Some i"
  show "status (calls (goto w p s1) ! i) = Pending"
  proof (cases "v = w")
    case True
    with p assms(2,5) have "pre p = Some i" by simp
    with assms(4) have "i = nextIndex s" "i < n" by auto
    with assms(1,6) show ?thesis by (simp add: fresh_ok_def)
  next
    case False
    with v p assms(1,5,6) show ?thesis by (simp add: fresh_ok_def)
  qed
qed

lemma fresh_moves:
  "moves cx s s' \<Longrightarrow> wf cx n s \<Longrightarrow> completed_returns cx \<Longrightarrow> fresh_ok n s \<Longrightarrow> fresh_ok n s'"
proof (induction rule: moves.induct)
  case (spawn s)
  then show ?case by (simp add: fresh_spawn)
next
  case (leave s w)
  have w: "w < length (workers s)" using leave(1,4) by (rule wf_active_lt[rotated])
  show ?case
    by (rule fresh_bump[OF leave(6) w]) (simp_all add: leave(2))
next
  case (claim s w)
  have w: "w < length (workers s)" using claim(1,4) by (rule wf_active_lt[rotated])
  have n: "nextIndex s < n" using claim(3,4) by (simp add: wf_def)
  show ?case
    by (rule fresh_bump[OF claim(6) w]) (simp_all add: claim(2) n)
next
  case (save_ok s w i v st')
  have w: "w < length (workers s)" using save_ok(1,4) by (rule wf_active_lt[rotated])
  show ?case
    by (rule fresh_goto_write[OF save_ok(6,4) w]) (simp_all add: save_ok(2))
next
  case (caught s w i err)
  have w: "w < length (workers s)" using caught(1,3) by (rule wf_active_lt[rotated])
  show ?case
    by (rule fresh_goto_write[OF caught(5,3) w]) (simp_all add: caught(2))
next
  case (completed_throws s w i e)
  with completed_returns_fire[of cx i s] show ?case by simp
qed ((rule fresh_goto_keep, assumption); auto simp: wf_active_lt[of cx n])+


lemma status_moves:
  assumes "moves cx s s'" "wf cx n s" "completed_returns cx" "fresh_ok n s" "j < n"
  shows "status (calls s' ! j) = status (calls s ! j) \<or>
     (status (calls s ! j) = Pending \<and>
        (status (calls s' ! j) = Completed \<or> status (calls s' ! j) = Failed))"
  using assms
proof (induction rule: moves.induct)
  case (save_ok s w i v st')
  have w: "w < length (workers s)" using save_ok(1,4) by (rule wf_active_lt[rotated])
  with save_ok(2,6) have "status (calls s ! i) = Pending" by (simp add: fresh_ok_def)
  moreover have "length (calls s) = n" using save_ok(4) by (simp add: wf_def)
  ultimately show ?case using save_ok(7) by (cases "j = i") simp_all
next
  case (caught s w i err)
  have w: "w < length (workers s)" using caught(1,3) by (rule wf_active_lt[rotated])
  with caught(2,5) have "status (calls s ! i) = Pending" by (simp add: fresh_ok_def)
  moreover have "length (calls s) = n" using caught(3) by (simp add: wf_def)
  ultimately show ?case using caught(6) by (cases "j = i") simp_all
qed simp_all

lemma fresh_step: "wf cx n s \<Longrightarrow> completed_returns cx \<Longrightarrow> fresh_ok n s \<Longrightarrow> fresh_ok n (step cx e s)"
  using step_moves[of cx e s] fresh_moves[of cx s "step cx e s" n] by auto

lemma terminal_stays:
  assumes "completed_returns cx" "j < n"
  shows "wf cx n s \<Longrightarrow> fresh_ok n s \<Longrightarrow> status (calls s ! j) \<noteq> Pending
     \<Longrightarrow> status (calls (run cx evs s) ! j) = status (calls s ! j)"
proof (induction evs arbitrary: s)
  case Nil
  then show ?case by simp
next
  case (Cons e evs)
  have same: "status (calls (step cx e s) ! j) = status (calls s ! j)"
    using step_moves[of cx e s] status_moves[OF _ Cons.prems(1) assms(1) Cons.prems(2) assms(2), of "step cx e s"]
      Cons.prems(3)
    by auto
  from Cons.IH[OF wf_step[OF Cons.prems(1)] fresh_step[OF Cons.prems(1) assms(1) Cons.prems(2)]]
    same Cons.prems(3)
  show ?case by simp
qed

lemma fresh_init: "\<forall>tc \<in> set tcs. status tc = Pending \<Longrightarrow> fresh_ok (length tcs) (init tcs st)"
  by (simp add: fresh_ok_def init_def)

lemma fresh_run:
  assumes "\<forall>tc \<in> set tcs. status tc = Pending" "completed_returns cx"
  shows "fresh_ok (length tcs) (run cx evs (init tcs st))"
  using run_invariant[of cx "length tcs" "fresh_ok (length tcs)" "init tcs st" evs]
    fresh_moves[OF _ _ assms(2)] wf_init fresh_init[OF assms(1)]
  by blast

subsection \<open>Order of the notifications\<close>

text \<open>
  In a trace: a terminal notification of a call comes after its running notification,
  and an error notification comes right after the failed notification of its call.
\<close>

definition running_first :: "effect list \<Rightarrow> bool" where
  "running_first l \<longleftrightarrow>
     (\<forall>j < length l. \<forall>tid i.
        l ! j = UpdateCb tid i Completed \<or> l ! j = UpdateCb tid i Failed
          \<longrightarrow> (\<exists>j' < j. l ! j' = UpdateCb tid i Running))"

definition failed_then_error :: "effect list \<Rightarrow> bool" where
  "failed_then_error l \<longleftrightarrow>
     (\<forall>j < length l. \<forall>tid i t a e.
        l ! j = ErrorCb tid i t a e \<longrightarrow> 0 < j \<and> l ! (j - 1) = UpdateCb tid i Failed)"

lemma running_first_snoc:
  assumes "running_first l"
    and "\<And>tid i. x = UpdateCb tid i Completed \<or> x = UpdateCb tid i Failed
           \<Longrightarrow> UpdateCb tid i Running \<in> set l"
  shows "running_first (l @ [x])"
  unfolding running_first_def
proof (intro allI impI)
  fix j tid i
  assume j: "j < length (l @ [x])"
    and t: "(l @ [x]) ! j = UpdateCb tid i Completed \<or> (l @ [x]) ! j = UpdateCb tid i Failed"
  show "\<exists>j' < j. (l @ [x]) ! j' = UpdateCb tid i Running"
  proof (cases "j < length l")
    case True
    with t have "l ! j = UpdateCb tid i Completed \<or> l ! j = UpdateCb tid i Failed"
      by (simp add: nth_append)
    with assms(1) True obtain j' where "j' < j" "l ! j' = UpdateCb tid i Running"
      unfolding running_first_def by blast
    with True show ?thesis by (auto simp: nth_append intro!: exI[of _ j'])
  next
    case False
    with j have jl: "j = length l" by simp
    with t have "x = UpdateCb tid i Completed \<or> x = UpdateCb tid i Failed" by simp
    from assms(2)[OF this] obtain j' where "j' < length l" "l ! j' = UpdateCb tid i Running"
      by (auto simp: in_set_conv_nth)
    with jl show ?thesis by (auto simp: nth_append intro!: exI[of _ j'])
  qed
qed

lemma failed_then_error_snoc:
  assumes "failed_then_error l"
    and "\<And>tid i t a e. x = ErrorCb tid i t a e \<Longrightarrow> l \<noteq> [] \<and> last l = UpdateCb tid i Failed"
  shows "failed_then_error (l @ [x])"
  unfolding failed_then_error_def
proof (intro allI impI)
  fix j tid i t a e
  assume j: "j < length (l @ [x])" and x: "(l @ [x]) ! j = ErrorCb tid i t a e"
  show "0 < j \<and> (l @ [x]) ! (j - 1) = UpdateCb tid i Failed"
  proof (cases "j < length l")
    case True
    with x have "l ! j = ErrorCb tid i t a e" by (simp add: nth_append)
    with assms(1) True have "0 < j \<and> l ! (j - 1) = UpdateCb tid i Failed"
      unfolding failed_then_error_def by blast
    moreover from True have "j - 1 < length l" by simp
    ultimately show ?thesis by (simp add: nth_append)
  next
    case False
    with j have jl: "j = length l" by simp
    with x have "x = ErrorCb tid i t a e" by simp
    from assms(2)[OF this] have ne: "l \<noteq> []" and la: "last l = UpdateCb tid i Failed"
      by simp_all
    have "l ! (length l - 1) = UpdateCb tid i Failed"
      using la last_conv_nth[OF ne] by simp
    with jl ne show ?thesis by (simp add: nth_append)
  qed
qed


lemma running_first_update_note:
  assumes "running_first l"
    and "observer_update cx \<noteq> None \<Longrightarrow> st \<noteq> Running
           \<Longrightarrow> UpdateCb (task_id (task cx)) i Running \<in> set l"
  shows "running_first (l @ update_note cx i st)"
proof (cases "observer_update cx")
  case None
  with assms(1) show ?thesis by (simp add: update_note_def)
next
  case (Some f)
  have "running_first (l @ [UpdateCb (task_id (task cx)) i st])"
    by (rule running_first_snoc[OF assms(1)]) (use assms(2) Some in auto)
  with Some show ?thesis by (simp add: update_note_def)
qed

lemma running_first_error_note:
  assumes "running_first l"
  shows "running_first (l @ error_note cx i e s)"
proof (cases "observer_error cx")
  case None
  with assms show ?thesis by (simp add: error_note_def)
next
  case (Some g)
  have "running_first (l @ [ErrorCb (task_id (task cx)) i (tool (calls s ! i)) (args (calls s ! i)) e])"
    by (rule running_first_snoc[OF assms]) simp
  with Some show ?thesis by (simp add: error_note_def)
qed

lemma failed_then_error_update_note:
  assumes "failed_then_error l"
  shows "failed_then_error (l @ update_note cx i st)"
proof (cases "observer_update cx")
  case None
  with assms show ?thesis by (simp add: update_note_def)
next
  case (Some f)
  have "failed_then_error (l @ [UpdateCb (task_id (task cx)) i st])"
    by (rule failed_then_error_snoc[OF assms]) simp
  with Some show ?thesis by (simp add: update_note_def)
qed

lemma failed_then_error_error_note:
  assumes "failed_then_error l" "l \<noteq> []" "last l = UpdateCb (task_id (task cx)) i Failed"
  shows "failed_then_error (l @ error_note cx i e s)"
proof (cases "observer_error cx")
  case None
  with assms show ?thesis by (simp add: error_note_def)
next
  case (Some g)
  have "failed_then_error (l @ [ErrorCb (task_id (task cx)) i (tool (calls s ! i)) (args (calls s ! i)) e])"
    by (rule failed_then_error_snoc[OF assms(1)]) (use assms(2,3) in auto)
  with Some show ?thesis by (simp add: error_note_def)
qed

definition notified :: "Invocation \<Rightarrow> state \<Rightarrow> bool" where
  "notified cx s \<longleftrightarrow>
     running_first (log s) \<and>
     (observer_update cx \<noteq> None \<longrightarrow>
        failed_then_error (log s) \<and>
        (\<forall>w < length (workers s). \<forall>i. holds (workers s ! w) = Some i
            \<longrightarrow> workers s ! w \<noteq> AtRunningCb i
            \<longrightarrow> UpdateCb (task_id (task cx)) i Running \<in> set (log s)) \<and>
        (\<forall>w < length (workers s). \<forall>i e. workers s ! w = AtErrorCb i e
            \<longrightarrow> log s \<noteq> [] \<and> last (log s) = UpdateCb (task_id (task cx)) i Failed))"

lemma notified_goto:
  assumes "notified cx s" "wf cx n s" "turn cx s w"
    and "workers s1 = workers s" "set (log s) \<subseteq> set (log s1)"
    and "running_first (log s1)"
    and "observer_update cx \<noteq> None \<Longrightarrow> failed_then_error (log s1)"
    and "\<And>i. observer_update cx \<noteq> None \<Longrightarrow> holds p = Some i \<Longrightarrow> p \<noteq> AtRunningCb i
           \<Longrightarrow> UpdateCb (task_id (task cx)) i Running \<in> set (log s1)"
    and "\<And>i e. observer_update cx \<noteq> None \<Longrightarrow> p = AtErrorCb i e
           \<Longrightarrow> log s1 \<noteq> [] \<and> last (log s1) = UpdateCb (task_id (task cx)) i Failed"
  shows "notified cx (goto w p s1)"
proof -
  from turn_others[OF assms(2,3)] have w: "w < length (workers s)"
    and others: "\<forall>v < length (workers s). v \<noteq> w \<longrightarrow> \<not> internal (workers s ! v)" by simp_all
  have a: "running_first (log (goto w p s1))" using assms(6) by simp
  have b: "failed_then_error (log (goto w p s1))" if "observer_update cx \<noteq> None"
    using assms(7)[OF that] by simp
  have c: "UpdateCb (task_id (task cx)) i Running \<in> set (log (goto w p s1))"
    if o: "observer_update cx \<noteq> None" and v: "v < length (workers (goto w p s1))"
      and h: "holds (workers (goto w p s1) ! v) = Some i"
      and r: "workers (goto w p s1) ! v \<noteq> AtRunningCb i" for v i
  proof (cases "v = w")
    case True
    with h r w assms(4) have "holds p = Some i" "p \<noteq> AtRunningCb i" by simp_all
    from assms(8)[OF o this] show ?thesis by simp
  next
    case False
    with v h r assms(4) have "holds (workers s ! v) = Some i" "workers s ! v \<noteq> AtRunningCb i"
      "v < length (workers s)" by simp_all
    with assms(1) o have "UpdateCb (task_id (task cx)) i Running \<in> set (log s)"
      by (simp add: notified_def)
    with assms(5) show ?thesis by auto
  qed
  have d: "log (goto w p s1) \<noteq> [] \<and> last (log (goto w p s1)) = UpdateCb (task_id (task cx)) i Failed"
    if o: "observer_update cx \<noteq> None" and v: "v < length (workers (goto w p s1))"
      and e: "workers (goto w p s1) ! v = AtErrorCb i e" for v i e
  proof (cases "v = w")
    case True
    with e w assms(4) have "p = AtErrorCb i e" by simp
    from assms(9)[OF o this] show ?thesis by simp
  next
    case False
    with v e assms(4) have "workers s ! v = AtErrorCb i e" "v < length (workers s)" by simp_all
    with others False show ?thesis by fastforce
  qed
  show ?thesis unfolding notified_def using a b c d by blast
qed


lemma notified_rf: "notified cx s \<Longrightarrow> running_first (log s)"
  by (simp add: notified_def)

lemma notified_fe: "notified cx s \<Longrightarrow> observer_update cx \<noteq> None \<Longrightarrow> failed_then_error (log s)"
  by (simp add: notified_def)

lemma notified_seen:
  "notified cx s \<Longrightarrow> observer_update cx \<noteq> None \<Longrightarrow> w < length (workers s)
     \<Longrightarrow> holds (workers s ! w) = Some i \<Longrightarrow> workers s ! w \<noteq> AtRunningCb i
     \<Longrightarrow> UpdateCb (task_id (task cx)) i Running \<in> set (log s)"
  by (simp add: notified_def)

lemma notified_last:
  "notified cx s \<Longrightarrow> observer_update cx \<noteq> None \<Longrightarrow> w < length (workers s)
     \<Longrightarrow> workers s ! w = AtErrorCb i e
     \<Longrightarrow> log s \<noteq> [] \<and> last (log s) = UpdateCb (task_id (task cx)) i Failed"
  by (simp add: notified_def)

lemma update_note_present:
  "observer_update cx \<noteq> None \<Longrightarrow> update_note cx i st = [UpdateCb (task_id (task cx)) i st]"
  by (auto simp: update_note_def)

lemma notified_spawn:
  assumes "notified cx s"
  shows "notified cx (s\<lparr>workers := workers s @ [AtClaim], active := a\<rparr>)"
  using assms unfolding notified_def
  by (auto simp: nth_append less_Suc_eq)

lemma mover_seen:
  "notified cx s \<Longrightarrow> wf cx n s \<Longrightarrow> turn cx s w \<Longrightarrow> observer_update cx \<noteq> None
     \<Longrightarrow> holds (workers s ! w) = Some i \<Longrightarrow> workers s ! w \<noteq> AtRunningCb i
     \<Longrightarrow> UpdateCb (task_id (task cx)) i Running \<in> set (log s)"
  using notified_seen[of cx s w i] turn_lt[of cx n s w] by simp

lemma mover_last:
  "notified cx s \<Longrightarrow> wf cx n s \<Longrightarrow> turn cx s w \<Longrightarrow> observer_update cx \<noteq> None
     \<Longrightarrow> workers s ! w = AtErrorCb i e
     \<Longrightarrow> log s \<noteq> [] \<and> last (log s) = UpdateCb (task_id (task cx)) i Failed"
  using notified_last[of cx s w i e] turn_lt[of cx n s w] by simp

lemma notified_moves: "moves cx s s' \<Longrightarrow> wf cx n s \<Longrightarrow> notified cx s \<Longrightarrow> notified cx s'"
proof (induction rule: moves.induct)
  case (spawn s)
  then show ?case by (simp add: notified_spawn)
next
  case (leave s w)
  have t: "turn cx s w" using leave.hyps by simp
  note seen = mover_seen[OF leave.prems(2,1) t] and last = mover_last[OF leave.prems(2,1) t]
  show ?case
    by (rule notified_goto[OF leave.prems(2,1) t])
      (use leave.hyps seen last in \<open>auto simp: notified_rf[OF leave.prems(2)] update_note_present
        intro!: running_first_update_note running_first_error_note failed_then_error_update_note
          failed_then_error_error_note running_first_snoc failed_then_error_snoc
          notified_fe[OF leave.prems(2)]\<close>)
next
  case (claim s w)
  have t: "turn cx s w" using claim.hyps by simp
  note seen = mover_seen[OF claim.prems(2,1) t] and last = mover_last[OF claim.prems(2,1) t]
  show ?case
    by (rule notified_goto[OF claim.prems(2,1) t])
      (use claim.hyps seen last in \<open>auto simp: notified_rf[OF claim.prems(2)] update_note_present
        intro!: running_first_update_note running_first_error_note failed_then_error_update_note
          failed_then_error_error_note running_first_snoc failed_then_error_snoc
          notified_fe[OF claim.prems(2)]\<close>)
next
  case (running_ok s w i)
  have t: "turn cx s w" using running_ok.hyps by simp
  note seen = mover_seen[OF running_ok.prems(2,1) t] and last = mover_last[OF running_ok.prems(2,1) t]
  show ?case
    by (rule notified_goto[OF running_ok.prems(2,1) t])
      (use running_ok.hyps seen last in \<open>auto simp: notified_rf[OF running_ok.prems(2)] update_note_present
        intro!: running_first_update_note running_first_error_note failed_then_error_update_note
          failed_then_error_error_note running_first_snoc failed_then_error_snoc
          notified_fe[OF running_ok.prems(2)]\<close>)
next
  case (running_throws s w i e)
  have t: "turn cx s w" using running_throws.hyps by simp
  note seen = mover_seen[OF running_throws.prems(2,1) t] and last = mover_last[OF running_throws.prems(2,1) t]
  show ?case
    by (rule notified_goto[OF running_throws.prems(2,1) t])
      (use running_throws.hyps seen last in \<open>auto simp: notified_rf[OF running_throws.prems(2)] update_note_present
        intro!: running_first_update_note running_first_error_note failed_then_error_update_note
          failed_then_error_error_note running_first_snoc failed_then_error_snoc
          notified_fe[OF running_throws.prems(2)]\<close>)
next
  case (missing s w i)
  have t: "turn cx s w" using missing.hyps by simp
  note seen = mover_seen[OF missing.prems(2,1) t] and last = mover_last[OF missing.prems(2,1) t]
  show ?case
    by (rule notified_goto[OF missing.prems(2,1) t])
      (use missing.hyps seen last in \<open>auto simp: notified_rf[OF missing.prems(2)] update_note_present
        intro!: running_first_update_note running_first_error_note failed_then_error_update_note
          failed_then_error_error_note running_first_snoc failed_then_error_snoc
          notified_fe[OF missing.prems(2)]\<close>)
next
  case (invoke s w i t)
  have t: "turn cx s w" using invoke.hyps by simp
  note seen = mover_seen[OF invoke.prems(2,1) t] and last = mover_last[OF invoke.prems(2,1) t]
  show ?case
    by (rule notified_goto[OF invoke.prems(2,1) t])
      (use invoke.hyps seen last in \<open>auto simp: notified_rf[OF invoke.prems(2)] update_note_present
        intro!: running_first_update_note running_first_error_note failed_then_error_update_note
          failed_then_error_error_note running_first_snoc failed_then_error_snoc
          notified_fe[OF invoke.prems(2)]\<close>)
next
  case (save_throws s w i v m)
  have t: "turn cx s w" using save_throws.hyps by simp
  note seen = mover_seen[OF save_throws.prems(2,1) t] and last = mover_last[OF save_throws.prems(2,1) t]
  show ?case
    by (rule notified_goto[OF save_throws.prems(2,1) t])
      (use save_throws.hyps seen last in \<open>auto simp: notified_rf[OF save_throws.prems(2)] update_note_present
        intro!: running_first_update_note running_first_error_note failed_then_error_update_note
          failed_then_error_error_note running_first_snoc failed_then_error_snoc
          notified_fe[OF save_throws.prems(2)]\<close>)
next
  case (save_ok s w i v st')
  have t: "turn cx s w" using save_ok.hyps by simp
  note seen = mover_seen[OF save_ok.prems(2,1) t] and last = mover_last[OF save_ok.prems(2,1) t]
  show ?case
    by (rule notified_goto[OF save_ok.prems(2,1) t])
      (use save_ok.hyps seen last in \<open>auto simp: notified_rf[OF save_ok.prems(2)] update_note_present
        intro!: running_first_update_note running_first_error_note failed_then_error_update_note
          failed_then_error_error_note running_first_snoc failed_then_error_snoc
          notified_fe[OF save_ok.prems(2)]\<close>)
next
  case (completed_ok s w i)
  have t: "turn cx s w" using completed_ok.hyps by simp
  note seen = mover_seen[OF completed_ok.prems(2,1) t] and last = mover_last[OF completed_ok.prems(2,1) t]
  show ?case
    by (rule notified_goto[OF completed_ok.prems(2,1) t])
      (use completed_ok.hyps seen last in \<open>auto simp: notified_rf[OF completed_ok.prems(2)] update_note_present
        intro!: running_first_update_note running_first_error_note failed_then_error_update_note
          failed_then_error_error_note running_first_snoc failed_then_error_snoc
          notified_fe[OF completed_ok.prems(2)]\<close>)
next
  case (completed_throws s w i e)
  have t: "turn cx s w" using completed_throws.hyps by simp
  note seen = mover_seen[OF completed_throws.prems(2,1) t] and last = mover_last[OF completed_throws.prems(2,1) t]
  show ?case
    by (rule notified_goto[OF completed_throws.prems(2,1) t])
      (use completed_throws.hyps seen last in \<open>auto simp: notified_rf[OF completed_throws.prems(2)] update_note_present
        intro!: running_first_update_note running_first_error_note failed_then_error_update_note
          failed_then_error_error_note running_first_snoc failed_then_error_snoc
          notified_fe[OF completed_throws.prems(2)]\<close>)
next
  case (caught s w i err)
  have t: "turn cx s w" using caught.hyps by simp
  note seen = mover_seen[OF caught.prems(2,1) t] and last = mover_last[OF caught.prems(2,1) t]
  show ?case
    by (rule notified_goto[OF caught.prems(2,1) t])
      (use caught.hyps seen last in \<open>auto simp: notified_rf[OF caught.prems(2)] update_note_present
        intro!: running_first_update_note running_first_error_note failed_then_error_update_note
          failed_then_error_error_note running_first_snoc failed_then_error_snoc
          notified_fe[OF caught.prems(2)]\<close>)
next
  case (failed_ok s w i err)
  have t: "turn cx s w" using failed_ok.hyps by simp
  note seen = mover_seen[OF failed_ok.prems(2,1) t] and last = mover_last[OF failed_ok.prems(2,1) t]
  show ?case
    by (rule notified_goto[OF failed_ok.prems(2,1) t])
      (use failed_ok.hyps seen last in \<open>auto simp: notified_rf[OF failed_ok.prems(2)] update_note_present
        intro!: running_first_update_note running_first_error_note failed_then_error_update_note
          failed_then_error_error_note running_first_snoc failed_then_error_snoc
          notified_fe[OF failed_ok.prems(2)]\<close>)
next
  case (failed_throws s w i err e)
  have t: "turn cx s w" using failed_throws.hyps by simp
  note seen = mover_seen[OF failed_throws.prems(2,1) t] and last = mover_last[OF failed_throws.prems(2,1) t]
  show ?case
    by (rule notified_goto[OF failed_throws.prems(2,1) t])
      (use failed_throws.hyps seen last in \<open>auto simp: notified_rf[OF failed_throws.prems(2)] update_note_present
        intro!: running_first_update_note running_first_error_note failed_then_error_update_note
          failed_then_error_error_note running_first_snoc failed_then_error_snoc
          notified_fe[OF failed_throws.prems(2)]\<close>)
next
  case (error_ok s w i err)
  have t: "turn cx s w" using error_ok.hyps by simp
  note seen = mover_seen[OF error_ok.prems(2,1) t] and last = mover_last[OF error_ok.prems(2,1) t]
  show ?case
    by (rule notified_goto[OF error_ok.prems(2,1) t])
      (use error_ok.hyps seen last in \<open>auto simp: notified_rf[OF error_ok.prems(2)] update_note_present
        intro!: running_first_update_note running_first_error_note failed_then_error_update_note
          failed_then_error_error_note running_first_snoc failed_then_error_snoc
          notified_fe[OF error_ok.prems(2)]\<close>)
next
  case (error_throws s w i err e)
  have t: "turn cx s w" using error_throws.hyps by simp
  note seen = mover_seen[OF error_throws.prems(2,1) t] and last = mover_last[OF error_throws.prems(2,1) t]
  show ?case
    by (rule notified_goto[OF error_throws.prems(2,1) t])
      (use error_throws.hyps seen last in \<open>auto simp: notified_rf[OF error_throws.prems(2)] update_note_present
        intro!: running_first_update_note running_first_error_note failed_then_error_update_note
          failed_then_error_error_note running_first_snoc failed_then_error_snoc
          notified_fe[OF error_throws.prems(2)]\<close>)
next
  case (fulfilled s w i k v)
  have t: "turn cx s w" using fulfilled.hyps by simp
  note seen = mover_seen[OF fulfilled.prems(2,1) t] and last = mover_last[OF fulfilled.prems(2,1) t]
  show ?case
    by (rule notified_goto[OF fulfilled.prems(2,1) t])
      (use fulfilled.hyps seen last in \<open>auto simp: notified_rf[OF fulfilled.prems(2)] update_note_present
        intro!: running_first_update_note running_first_error_note failed_then_error_update_note
          failed_then_error_error_note running_first_snoc failed_then_error_snoc
          notified_fe[OF fulfilled.prems(2)]\<close>)
next
  case (gave_up s w i k msg)
  have t: "turn cx s w" using gave_up.hyps by simp
  note seen = mover_seen[OF gave_up.prems(2,1) t] and last = mover_last[OF gave_up.prems(2,1) t]
  show ?case
    by (rule notified_goto[OF gave_up.prems(2,1) t])
      (use gave_up.hyps seen last in \<open>auto simp: notified_rf[OF gave_up.prems(2)] update_note_present
        intro!: running_first_update_note running_first_error_note failed_then_error_update_note
          failed_then_error_error_note running_first_snoc failed_then_error_snoc
          notified_fe[OF gave_up.prems(2)]\<close>)
next
  case (backed_off s w i k msg r)
  have t: "turn cx s w" using backed_off.hyps by simp
  note seen = mover_seen[OF backed_off.prems(2,1) t] and last = mover_last[OF backed_off.prems(2,1) t]
  show ?case
    by (rule notified_goto[OF backed_off.prems(2,1) t])
      (use backed_off.hyps seen last in \<open>auto simp: notified_rf[OF backed_off.prems(2)] update_note_present
        intro!: running_first_update_note running_first_error_note failed_then_error_update_note
          failed_then_error_error_note running_first_snoc failed_then_error_snoc
          notified_fe[OF backed_off.prems(2)]\<close>)
next
  case (retried s w i k)
  have t: "turn cx s w" using retried.hyps by simp
  note seen = mover_seen[OF retried.prems(2,1) t] and last = mover_last[OF retried.prems(2,1) t]
  show ?case
    by (rule notified_goto[OF retried.prems(2,1) t])
      (use retried.hyps seen last in \<open>auto simp: notified_rf[OF retried.prems(2)] update_note_present
        intro!: running_first_update_note running_first_error_note failed_then_error_update_note
          failed_then_error_error_note running_first_snoc failed_then_error_snoc
          notified_fe[OF retried.prems(2)]\<close>)
next
  case (fell_through s w i k)
  have t: "turn cx s w" using fell_through.hyps by simp
  note seen = mover_seen[OF fell_through.prems(2,1) t] and last = mover_last[OF fell_through.prems(2,1) t]
  show ?case
    by (rule notified_goto[OF fell_through.prems(2,1) t])
      (use fell_through.hyps seen last in \<open>auto simp: notified_rf[OF fell_through.prems(2)] update_note_present
        intro!: running_first_update_note running_first_error_note failed_then_error_update_note
          failed_then_error_error_note running_first_snoc failed_then_error_snoc
          notified_fe[OF fell_through.prems(2)]\<close>)
qed


lemma notified_init: "notified cx (init tcs st)"
  by (simp add: notified_def running_first_def failed_then_error_def init_def)

lemma notified_run: "notified cx (run cx evs (init tcs st))"
  using run_invariant[of cx "length tcs" "notified cx" "init tcs st" evs]
    notified_moves wf_init notified_init
  by blast

lemma status_values:
  assumes "\<forall>tc \<in> set tcs. status tc = Pending" "i < length tcs"
  shows "status (calls (run cx evs (init tcs st)) ! i) = Pending
       \<or> status (calls (run cx evs (init tcs st)) ! i) = Completed
       \<or> status (calls (run cx evs (init tcs st)) ! i) = Failed"
proof -
  let ?s = "run cx evs (init tcs st)"
  have w: "wf cx (length tcs) ?s" by (rule wf_run[OF wf_init])
  have "never_running (init tcs st)" using assms(1) by (auto simp: never_running_def init_def)
  from never_running_run[OF this, of cx evs] w assms(2)
  have "status (calls ?s ! i) \<noteq> Running" by (simp add: never_running_def wf_def)
  then show ?thesis by (cases "status (calls ?s ! i)") simp_all
qed

lemma lifecycle_status:
  assumes "\<forall>tc \<in> set tcs. status tc = Pending" "completed_returns cx" "i < length tcs"
    and "status (calls (run cx evs (init tcs st)) ! i) \<noteq> Pending"
  shows "status (calls (run cx (evs @ later) (init tcs st)) ! i)
         = status (calls (run cx evs (init tcs st)) ! i)"
proof -
  let ?s = "run cx evs (init tcs st)"
  have w: "wf cx (length tcs) ?s" by (rule wf_run[OF wf_init])
  from terminal_stays[OF assms(2,3) w fresh_run[OF assms(1,2)] assms(4), of later]
  show ?thesis by (simp add: run_append)
qed

lemma effects_ordered:
  "running_first (effects (executeTools cx st evs))"
  "observer_update cx \<noteq> None \<Longrightarrow> failed_then_error (effects (executeTools cx st evs))"
proof -
  show "running_first (effects (executeTools cx st evs))"
  proof (cases "toolCalls (task cx)")
    case None
    then show ?thesis by (simp add: executeTools_def running_first_def)
  next
    case (Some cs)
    with notified_rf[OF notified_run[of cx evs cs st]] show ?thesis
      by (simp add: executeTools_def Let_def)
  qed
  assume o: "observer_update cx \<noteq> None"
  show "failed_then_error (effects (executeTools cx st evs))"
  proof (cases "toolCalls (task cx)")
    case None
    then show ?thesis by (simp add: executeTools_def failed_then_error_def)
  next
    case (Some cs)
    with notified_fe[OF notified_run[of cx evs cs st] o] show ?thesis
      by (simp add: executeTools_def Let_def)
  qed
qed

subsection \<open>Throwing observers\<close>

lemma rejection_moves: "moves cx s s' \<Longrightarrow> rejection s = Some e \<Longrightarrow> rejection s' = Some e"
  by (induction rule: moves.induct) simp_all

lemma rejection_run: "rejection s = Some e \<Longrightarrow> rejection (run cx evs s) = Some e"
proof (induction evs arbitrary: s)
  case Nil
  then show ?case by simp
next
  case (Cons x evs)
  have "rejection (step cx x s) = Some e"
    using step_moves[of cx x s] rejection_moves[of cx s "step cx x s" e] Cons.prems by auto
  with Cons.IH show ?case by simp
qed

text \<open>A worker that has ended with an exception has rejected the promise for good.\<close>

lemma rejected_worker:
  assumes "w < length (workers (run cx evs (init tcs st)))"
    and "workers (run cx evs (init tcs st)) ! w = Rejected e"
  shows "\<exists>m. e = ObserverError m"
    and "\<exists>m. promise_of cx (run cx (evs @ later) (init tcs st)) = RejectedWith (ObserverError m)"
proof -
  let ?s = "run cx evs (init tcs st)"
  have ok: "rejections_ok ?s" by (rule rejections_run)
  with assms show "\<exists>m. e = ObserverError m" by (auto simp: rejections_ok_def)
  from ok assms have "rejection ?s \<noteq> None" by (auto simp: rejections_ok_def)
  then obtain e0 where e0: "rejection ?s = Some e0" by blast
  with ok obtain m where "e0 = ObserverError m" by (auto simp: rejections_ok_def)
  with rejection_run[OF e0, of cx later]
  show "\<exists>m. promise_of cx (run cx (evs @ later) (init tcs st)) = RejectedWith (ObserverError m)"
    by (simp add: run_append promise_of_def)
qed

lemma quiet_workers:
  assumes "observers_return cx" "w < length (workers (run cx evs (init tcs st)))"
  shows "workers (run cx evs (init tcs st)) ! w \<noteq> Rejected e"
    and "promise_of cx (run cx evs (init tcs st)) \<noteq> RejectedWith e"
proof -
  let ?s = "run cx evs (init tcs st)"
  have n: "rejection ?s = None" using quiet_run[OF assms(1), of "init tcs st" evs] by (simp add: init_def)
  with rejections_run[of cx evs tcs st] assms(2)
  show "workers ?s ! w \<noteq> Rejected e" by (auto simp: rejections_ok_def)
  from n show "promise_of cx ?s \<noteq> RejectedWith e" by (simp add: promise_of_def)
qed

lemma log_moves: "moves cx s s' \<Longrightarrow> \<exists>l. log s' = log s @ l"
  by (induction rule: moves.induct) simp_all

lemma log_run: "\<exists>l. log (run cx evs s) = log s @ l"
proof (induction evs arbitrary: s)
  case Nil
  then show ?case by simp
next
  case (Cons e evs)
  from step_moves[of cx e s] log_moves[of cx s "step cx e s"]
  obtain l where l: "log (step cx e s) = log s @ l" by auto
  from Cons[of "step cx e s"] obtain l' where "log (run cx evs (step cx e s)) = log (step cx e s) @ l'"
    by blast
  with l show ?case by simp
qed

lemma claimed_grows:
  "prefix (claimed (log (run cx evs s))) (claimed (log (run cx (evs @ later) s)))"
proof -
  from log_run[of cx later "run cx evs s"] obtain l
    where "log (run cx (evs @ later) s) = log (run cx evs s) @ l"
    by (auto simp: run_append)
  then show ?thesis by simp
qed

text \<open>A worker leaves only when the counter has reached the length of the list.\<close>

lemma returned_all_claimed:
  assumes "w < length (workers (run cx evs (init tcs st)))"
    and "workers (run cx evs (init tcs st)) ! w = Returned"
  shows "claimed (log (run cx evs (init tcs st))) = [0..<length tcs]"
proof -
  from verdict_run[of tcs cx evs st] assms have "length tcs \<le> nextIndex (run cx evs (init tcs st))"
    unfolding verdict_ok_def by blast
  with claims_run[of tcs cx evs st] show ?thesis by (simp add: claims_ok_def)
qed

subsection \<open>Failures and the verdict\<close>










text \<open>
  A call whose capability is not in the registry never reaches \<^verbatim>\<open>tool.invoke\<close>: once
  claimed it is on its way to the \<^verbatim>\<open>catch\<close> block, or has been marked failed, or its
  worker was ended by the running notification.
\<close>

definition lacking :: "Invocation \<Rightarrow> state \<Rightarrow> nat \<Rightarrow> bool" where
  "lacking cx s i \<longleftrightarrow> toolMap_get (executor cx) (tool (calls s ! i)) = None"




lemma tool_status_update: "tool (xs[j := (xs ! j)\<lparr>status := st\<rparr>] ! i) = tool (xs ! i)"
proof (cases "j < length xs")
  case True
  then show ?thesis by (cases "i = j") simp_all
next
  case False
  then show ?thesis by (simp add: list_update_beyond)
qed

lemma lacking_frame [simp]:
  "lacking cx (goto w p s) i = lacking cx s i"
  "lacking cx (emit x s) i = lacking cx s i"
  "lacking cx (set_status j st s) i = lacking cx s i"
  "lacking cx (s\<lparr>store := st'\<rparr>) i = lacking cx s i"
  "lacking cx (s\<lparr>allSucceeded := b\<rparr>) i = lacking cx s i"
  "lacking cx (s\<lparr>nextIndex := k\<rparr>) i = lacking cx s i"
  "lacking cx (snd (fire_update cx j st s)) i = lacking cx s i"
  "lacking cx (snd (fire_error cx j e s)) i = lacking cx s i"
  by (simp_all add: lacking_def tool_status_update)






















text \<open>Events that throw into \<^verbatim>\<open>invokeWithRetries\<close>.\<close>

fun thrown :: "event \<Rightarrow> bool" where
  "thrown (Rejects w msg r) = True"
| "thrown e = False"










definition finish :: "Invocation \<Rightarrow> answers \<Rightarrow> ToolCallStatus list \<Rightarrow> ContextEntry list \<Rightarrow> event list \<Rightarrow> event list" where
  "finish cx env tcs st evs =
     evs @ schedule cx env (2 * poolSize cx + 13 * length tcs) (run cx evs (init tcs st))"


lemma finish_run:
  "run cx (finish cx env tcs st evs) (init tcs st)
     = run cx (schedule cx env (2 * poolSize cx + 13 * length tcs) (run cx evs (init tcs st)))
         (run cx evs (init tcs st))"
  by (simp add: finish_def run_append)



section \<open>The claims\<close>

subsection \<open>Example inputs\<close>

definition demo_tool :: Tool where
  "demo_tool = \<lparr>name = ''get_news'', tool_description = ''Retrieves recent news'',
     schema = Some [(''ticker'', Some ''The stock ticker symbol''), (''limit'', None)]\<rparr>"

definition demo_executor :: ToolExecutor where
  "demo_executor = \<lparr>tools = [demo_tool], contextManager = (\<lambda>e st. Inr (st @ [e])),
     maxConcurrentToolCalls = None\<rparr>"

definition demo_call :: "string \<Rightarrow> ToolCallStatus" where
  "demo_call n = \<lparr>tool = JStr n, args = JObj [(''ticker'', JStr ''AAPL'')], status = Pending\<rparr>"

definition demo_task :: "ToolCallStatus list option \<Rightarrow> Task" where
  "demo_task tcs = \<lparr>task_id = ''task-1'', description = ''get income statement'', toolCalls = tcs\<rparr>"

definition quiet_observers :: ToolExecutorCallbacks where
  "quiet_observers = \<lparr>onToolCallUpdate = Some (\<lambda>tid i st. Returns),
     onToolCallError = Some (\<lambda>tid i t a e. Returns)\<rparr>"

definition demo_cx :: "ToolCallStatus list option \<Rightarrow> Invocation" where
  "demo_cx tcs = \<lparr>executor = demo_executor, task = demo_task tcs, queryId = ''q-1'',
     callbacks = Some quiet_observers\<rparr>"

definition demo_understanding :: Understanding where
  "demo_understanding = \<lparr>entities = [\<lparr>entity_type = ''ticker'', entity_value = ''AAPL''\<rparr>]\<rparr>"

definition demo_backend :: "jsval \<Rightarrow> Collaborators" where
  "demo_backend response = \<lparr>callLlm = (\<lambda>prompt opts. Inr response),
     getToolSelectionSystemPrompt = (\<lambda>d. d), buildToolSelectionPrompt = (\<lambda>d ts ps. d)\<rparr>"

lemmas demo_defs = demo_tool_def demo_executor_def demo_call_def demo_task_def quiet_observers_def
  demo_cx_def demo_understanding_def demo_backend_def

lemmas exec_defs = executeTools_def init_def tick_def exec_def goto_def emit_def set_status_def
  fire_update_def fire_error_def observer_update_def observer_error_def resolves_def rejects_def
  timerFires_def idle_def poolSize_def maxConcurrent_def callCount_def toolMap_get_def toolMap_def
  promise_of_def maxAttempts_def


subsection \<open>Selection\<close>

text \<open>The value of a property of an element of \<^verbatim>\<open>tool_calls\<close> that could be read.\<close>

definition field :: "jsval \<Rightarrow> string \<Rightarrow> jsval" where
  "field v k = (case get_prop v k of Inr x \<Rightarrow> x | Inl e \<Rightarrow> JUndefined)"

lemma proposed_calls_map:
  "proposed_calls es = Inr ps \<Longrightarrow> ps = map (\<lambda>e. \<lparr>tool = field e ''name'', args = field e ''args''\<rparr>) es"
  by (induction es arbitrary: ps) (auto simp: field_def split: sum.splits)

lemma extract_malformed:
  assumes "(\<forall>kvs. response \<noteq> JObj kvs) \<or>
     (\<exists>kvs. response = JObj kvs \<and>
        (map_of kvs ''tool_calls'' = None \<or> (\<exists>v. map_of kvs ''tool_calls'' = Some v \<and> \<not> isArray v)))"
  shows "extractToolCalls response = Inr []"
  using assms by (cases response) (auto simp: extractToolCalls_def)

text \<open>
  C10. A backend response that is not an object (a primitive, \<^verbatim>\<open>null\<close>, \<^verbatim>\<open>undefined\<close>,
  also an array, which has no \<^verbatim>\<open>tool_calls\<close>), or an object whose \<^verbatim>\<open>tool_calls\<close> is absent
  or not an array, makes \<^verbatim>\<open>selectTools\<close> return the empty sequence, not an error.
\<close>

theorem selectTools_malformed_response:
  assumes "callLlm env (selection_prompt env tk u) (selection_options env ex) = Inr response"
    and "(\<forall>kvs. response \<noteq> JObj kvs) \<or>
     (\<exists>kvs. response = JObj kvs \<and>
        (map_of kvs ''tool_calls'' = None \<or> (\<exists>v. map_of kvs ''tool_calls'' = Some v \<and> \<not> isArray v)))"
  shows "selectTools env ex tk u = Inr []"
  using assms(1) extract_malformed[OF assms(2)] by (simp add: selectTools_def)

theorem selectTools_malformed_response_witness:
  "selectTools (demo_backend (JStr ''I can answer directly'')) demo_executor (demo_task None) demo_understanding = Inr []
   \<and> selectTools (demo_backend (JObj [(''content'', JStr ''hello'')])) demo_executor (demo_task None) demo_understanding = Inr []
   \<and> selectTools (demo_backend (JObj [(''tool_calls'', JStr ''none'')])) demo_executor (demo_task None) demo_understanding = Inr []"
proof -
  have 1: "selectTools (demo_backend (JStr ''I can answer directly'')) demo_executor (demo_task None) demo_understanding = Inr []"
    by (rule selectTools_malformed_response[where response = "JStr ''I can answer directly''"])
      (simp_all add: demo_backend_def)
  have 2: "selectTools (demo_backend (JObj [(''content'', JStr ''hello'')])) demo_executor (demo_task None) demo_understanding = Inr []"
    by (rule selectTools_malformed_response[where response = "JObj [(''content'', JStr ''hello'')]"])
      (simp_all add: demo_backend_def)
  have 3: "selectTools (demo_backend (JObj [(''tool_calls'', JStr ''none'')])) demo_executor (demo_task None) demo_understanding = Inr []"
    by (rule selectTools_malformed_response[where response = "JObj [(''tool_calls'', JStr ''none'')]"])
      (simp_all add: demo_backend_def)
  from 1 2 3 show ?thesis by simp
qed

text \<open>
  C6, the claim as stated fails: the backend may propose a name outside the capability
  set, and \<^verbatim>\<open>selectTools\<close> returns it unchecked.
\<close>

theorem selectTools_tool_in_set_counterexample:
  "selectTools
     (demo_backend (JObj [(''tool_calls'', JArr [JObj [(''name'', JStr ''bogus''), (''args'', JObj [])]])]))
     demo_executor (demo_task None) demo_understanding
     = Inr [\<lparr>tool = JStr ''bogus'', args = JObj [], status = Pending\<rparr>]
   \<and> ''bogus'' \<notin> set (map name (tools demo_executor))"
  by (simp add: selectTools_def extractToolCalls_def as_pending_def demo_defs)

text \<open>
  C6, amended. Every entry \<^verbatim>\<open>selectTools\<close> returns is pending; when the response carries
  an array \<^verbatim>\<open>tool_calls\<close>, the result has one entry per proposed call, in the proposed
  order, with the proposal's \<^verbatim>\<open>name\<close> as \<^verbatim>\<open>tool\<close> and its \<^verbatim>\<open>args\<close> as \<^verbatim>\<open>args\<close> (the name is
  not compared with the capability set); no proposed call gives the empty sequence.
\<close>

theorem selectTools_pending_in_order:
  assumes "callLlm env (selection_prompt env tk u) (selection_options env ex) = Inr response"
  shows "(selectTools env ex tk u = Inr cs \<longrightarrow> (\<forall>c \<in> set cs. status c = Pending))
    \<and> (response = JObj kvs \<and> map_of kvs ''tool_calls'' = Some (JArr es)
          \<and> selectTools env ex tk u = Inr cs \<longrightarrow>
        cs = map (\<lambda>e. \<lparr>tool = field e ''name'', args = field e ''args'', status = Pending\<rparr>) es)
    \<and> (response = JObj kvs \<and> map_of kvs ''tool_calls'' = Some (JArr []) \<longrightarrow>
        selectTools env ex tk u = Inr [])"
proof (intro conjI impI)
  assume "selectTools env ex tk u = Inr cs"
  then show "\<forall>c \<in> set cs. status c = Pending"
    using assms by (auto simp: selectTools_def as_pending_def split: sum.splits)
next
  assume a: "response = JObj kvs \<and> map_of kvs ''tool_calls'' = Some (JArr es)
     \<and> selectTools env ex tk u = Inr cs"
  then have "extractToolCalls response = proposed_calls es"
    by (simp add: extractToolCalls_def)
  with a assms obtain ps where ps: "proposed_calls es = Inr ps" "cs = map as_pending ps"
    by (auto simp: selectTools_def split: sum.splits)
  from proposed_calls_map[OF ps(1)] ps(2)
  show "cs = map (\<lambda>e. \<lparr>tool = field e ''name'', args = field e ''args'', status = Pending\<rparr>) es"
    by (simp add: as_pending_def)
next
  assume "response = JObj kvs \<and> map_of kvs ''tool_calls'' = Some (JArr [])"
  with assms show "selectTools env ex tk u = Inr []"
    by (simp add: selectTools_def extractToolCalls_def)
qed

definition demo_response :: jsval where
  "demo_response = JObj [(''tool_calls'',
     JArr [JObj [(''name'', JStr ''get_news''), (''args'', JObj [(''ticker'', JStr ''AAPL'')])],
           JObj [(''name'', JStr ''get_prices''), (''args'', JObj [])]])]"

theorem selectTools_pending_in_order_witness:
  "selectTools (demo_backend demo_response) demo_executor (demo_task None) demo_understanding
     = Inr [\<lparr>tool = JStr ''get_news'', args = JObj [(''ticker'', JStr ''AAPL'')], status = Pending\<rparr>,
            \<lparr>tool = JStr ''get_prices'', args = JObj [], status = Pending\<rparr>]
   \<and> list_all (\<lambda>c. status c = Pending)
        [\<lparr>tool = JStr ''get_news'', args = JObj [(''ticker'', JStr ''AAPL'')], status = Pending\<rparr>,
         \<lparr>tool = JStr ''get_prices'', args = JObj [], status = Pending\<rparr>]
   \<and> selectTools (demo_backend (JObj [(''tool_calls'', JArr [])])) demo_executor (demo_task None)
        demo_understanding = Inr []"
proof -
  let ?cs = "[\<lparr>tool = JStr ''get_news'', args = JObj [(''ticker'', JStr ''AAPL'')], status = Pending\<rparr>,
            \<lparr>tool = JStr ''get_prices'', args = JObj [], status = Pending\<rparr>]"
  have r: "selectTools (demo_backend demo_response) demo_executor (demo_task None) demo_understanding = Inr ?cs"
    by (simp add: selectTools_def extractToolCalls_def as_pending_def demo_defs demo_response_def)
  have c: "callLlm (demo_backend demo_response)
      (selection_prompt (demo_backend demo_response) (demo_task None) demo_understanding)
      (selection_options (demo_backend demo_response) demo_executor) = Inr demo_response"
    by (simp add: demo_backend_def)
  have c0: "callLlm (demo_backend (JObj [(''tool_calls'', JArr [])]))
      (selection_prompt (demo_backend (JObj [(''tool_calls'', JArr [])])) (demo_task None) demo_understanding)
      (selection_options (demo_backend (JObj [(''tool_calls'', JArr [])])) demo_executor)
        = Inr (JObj [(''tool_calls'', JArr [])])"
    by (simp add: demo_backend_def)
  from selectTools_pending_in_order[where ex = demo_executor and cs = ?cs
      and env = "demo_backend demo_response" and tk = "demo_task None" and u = demo_understanding
      and response = demo_response, OF c] r
  have "\<forall>c \<in> set ?cs. status c = Pending" by blast
  then have p: "list_all (\<lambda>c. status c = Pending) ?cs" by (simp only: list_all_iff)
  from selectTools_pending_in_order[where ex = demo_executor and kvs = "[(''tool_calls'', JArr [])]"
      and env = "demo_backend (JObj [(''tool_calls'', JArr [])])" and tk = "demo_task None"
      and u = demo_understanding and response = "JObj [(''tool_calls'', JArr [])]", OF c0]
  have e: "selectTools (demo_backend (JObj [(''tool_calls'', JArr [])])) demo_executor (demo_task None)
        demo_understanding = Inr []" by simp
  from r p e show ?thesis by simp
qed

text \<open>
  C9. Whatever the schedule, the task's list after \<^verbatim>\<open>executeTools\<close> has the length, the
  tool names and the arguments it had, index by index (only \<^verbatim>\<open>status\<close> is assigned), the
  task's id and description are untouched, and the flag \<^verbatim>\<open>allSucceeded\<close> never returns to
  true: if it is true after a longer run it was true after every shorter one.
\<close>

theorem executeTools_frame:
  "map_option (map tool) (toolCalls (task_after (executeTools cx st evs)))
     = map_option (map tool) (toolCalls (task cx))
   \<and> map_option (map args) (toolCalls (task_after (executeTools cx st evs)))
     = map_option (map args) (toolCalls (task cx))
   \<and> map_option length (toolCalls (task_after (executeTools cx st evs)))
     = map_option length (toolCalls (task cx))
   \<and> task_id (task_after (executeTools cx st evs)) = task_id (task cx)
   \<and> description (task_after (executeTools cx st evs)) = description (task cx)
   \<and> (allSucceeded (run cx (evs @ later) (init tcs st)) \<longrightarrow> allSucceeded (run cx evs (init tcs st)))"
proof -
  have mono: "allSucceeded (run cx (evs @ later) (init tcs st)) \<longrightarrow> allSucceeded (run cx evs (init tcs st))"
    using allSucceeded_run[of cx later "run cx evs (init tcs st)"] by (simp add: run_append)
  show ?thesis
  proof (cases "toolCalls (task cx)")
    case None
    with mono show ?thesis by (simp add: executeTools_def)
  next
    case (Some cs)
    have f: "frame cs (run cx evs (init cs st))" using frame_run[OF frame_init] .
    then have "length (calls (run cx evs (init cs st))) = length cs"
      unfolding frame_def using length_map by metis
    with f mono Some show ?thesis by (simp add: executeTools_def Let_def frame_def)
  qed
qed

definition demo_schedule :: "event list" where
  "demo_schedule = [Tick, Tick, Tick, Tick, Resolves 0 (JStr ''ok''), Tick, Tick, Tick]"

theorem executeTools_frame_witness:
  "allSucceeded (run (demo_cx (Some [demo_call ''get_news''])) ([Tick, Tick] @ demo_schedule)
      (init [demo_call ''get_news''] []))
   \<and> allSucceeded (run (demo_cx (Some [demo_call ''get_news''])) [Tick, Tick] (init [demo_call ''get_news''] []))
   \<and> toolCalls (task_after (executeTools (demo_cx (Some [demo_call ''get_news''])) [] demo_schedule))
      = Some [\<lparr>tool = JStr ''get_news'', args = JObj [(''ticker'', JStr ''AAPL'')], status = Completed\<rparr>]"
proof -
  have a: "allSucceeded (run (demo_cx (Some [demo_call ''get_news''])) ([Tick, Tick] @ demo_schedule)
      (init [demo_call ''get_news''] []))"
    by (simp add: demo_schedule_def demo_defs exec_defs)
  have c: "toolCalls (task_after (executeTools (demo_cx (Some [demo_call ''get_news''])) [] demo_schedule))
      = Some [\<lparr>tool = JStr ''get_news'', args = JObj [(''ticker'', JStr ''AAPL'')], status = Completed\<rparr>]"
    by (simp add: demo_schedule_def demo_defs exec_defs)
  from executeTools_frame[where cx = "demo_cx (Some [demo_call ''get_news''])" and st = "[]"
      and evs = "[Tick, Tick]" and later = demo_schedule and tcs = "[demo_call ''get_news'']"] a
  have "allSucceeded (run (demo_cx (Some [demo_call ''get_news''])) [Tick, Tick] (init [demo_call ''get_news''] []))"
    by blast
  with a c show ?thesis by simp
qed

text \<open>
  C4. With no call list \<^verbatim>\<open>executeTools\<close> returns at its first line: the promise is resolved
  with true, the task and the store are as they were, and nothing was invoked or
  notified. With an empty list, under every schedule the store is unchanged and the trace
  stays empty (no claim, no invocation, no observer call), the promise is never resolved
  with false nor rejected, and it is resolved with true as soon as the single worker has
  been started and has made its one claim (two steps).
\<close>

theorem executeTools_no_calls:
  "(toolCalls (task cx) = None \<longrightarrow>
      executeTools cx st evs
        = \<lparr>promise = Resolved True, task_after = task cx, store_after = st, effects = []\<rparr>)
   \<and> (toolCalls (task cx) = Some [] \<longrightarrow>
      store_after (executeTools cx st evs) = st
      \<and> effects (executeTools cx st evs) = []
      \<and> task_after (executeTools cx st evs) = task cx
      \<and> (promise (executeTools cx st evs) = Unsettled \<or> promise (executeTools cx st evs) = Resolved True)
      \<and> promise (executeTools cx st (Tick # Tick # evs)) = Resolved True)"
proof (intro conjI impI)
  assume "toolCalls (task cx) = None"
  then show "executeTools cx st evs
      = \<lparr>promise = Resolved True, task_after = task cx, store_after = st, effects = []\<rparr>"
    by (simp add: executeTools_def)
next
  assume e: "toolCalls (task cx) = Some []"
  have n: "nothing_ran st (run cx evs (init [] st))" by (rule nothing_run)
  from e n show "store_after (executeTools cx st evs) = st"
    by (simp add: executeTools_def Let_def nothing_ran_def)
  from e n show "effects (executeTools cx st evs) = []"
    by (simp add: executeTools_def Let_def nothing_ran_def)
  from e n have "task_after (executeTools cx st evs) = (task cx)\<lparr>toolCalls := toolCalls (task cx)\<rparr>"
    by (simp add: executeTools_def Let_def nothing_ran_def)
  then show "task_after (executeTools cx st evs) = task cx" by simp
  from e nothing_promise[OF n, of cx]
  show "promise (executeTools cx st evs) = Unsettled \<or> promise (executeTools cx st evs) = Resolved True"
    by (simp add: executeTools_def Let_def)
  have p: "poolSize cx = 1" using e by (simp add: poolSize_def callCount_def)
  from e empty_two_ticks[OF e, of evs st] p
  show "promise (executeTools cx st (Tick # Tick # evs)) = Resolved True"
    by (simp add: executeTools_def Let_def promise_of_def init_def)
qed

theorem executeTools_no_calls_witness:
  "executeTools (demo_cx None) [] demo_schedule
     = \<lparr>promise = Resolved True, task_after = demo_task None, store_after = [], effects = []\<rparr>
   \<and> effects (executeTools (demo_cx (Some [])) [] demo_schedule) = []
   \<and> store_after (executeTools (demo_cx (Some [])) [] demo_schedule) = []
   \<and> promise (executeTools (demo_cx (Some [])) [] (Tick # Tick # demo_schedule)) = Resolved True"
proof -
  have a: "toolCalls (task (demo_cx None)) = None" by (simp add: demo_defs)
  have b: "toolCalls (task (demo_cx (Some []))) = Some []" by (simp add: demo_defs)
  have t: "task (demo_cx None) = demo_task None" by (simp add: demo_defs)
  from executeTools_no_calls[of "demo_cx None" "[]" demo_schedule] a t
    executeTools_no_calls[of "demo_cx (Some [])" "[]" demo_schedule] b
  show ?thesis by simp
qed





text \<open>Two calls, the second one names a capability that is not registered.\<close>

definition mixed_calls :: "ToolCallStatus list" where
  "mixed_calls = [demo_call ''get_news'', demo_call ''get_prices'']"

definition always_ok :: answers where
  "always_ok i k = Inl (JStr ''ok'')"






definition news_cx :: Invocation where
  "news_cx = demo_cx (Some [demo_call ''get_news''])"



text \<open>
  C5. For a task with the call list \<open>tcs\<close> the pool has
  \<open>max 1 (min configuredMax (length tcs))\<close> workers, with 3 for an unset
  \<^verbatim>\<open>maxConcurrentToolCalls\<close>: no run has more workers, and a run that is let to finish has
  exactly that many. At every point of every run the calls that are running (claimed, and
  their status not yet written) are at most that many; with the option unset and five
  calls that is 3. The \<^verbatim>\<open>status\<close> field itself is never assigned \<^verbatim>\<open>running\<close>: a list free
  of it stays free of it.
\<close>

theorem executeTools_pool_bound:
  "(toolCalls (task cx) = Some tcs \<longrightarrow>
      callCount cx = length tcs
      \<and> poolSize cx
          = nat (max 1 (min (case maxConcurrentToolCalls (executor cx) of None \<Rightarrow> 3 | Some m \<Rightarrow> m)
                            (int (length tcs))))
      \<and> length (workers (run cx evs (init tcs st)))
          \<le> nat (max 1 (min (case maxConcurrentToolCalls (executor cx) of None \<Rightarrow> 3 | Some m \<Rightarrow> m)
                            (int (length tcs))))
      \<and> length (workers (run cx (schedule cx env (2 * poolSize cx + 13 * length tcs) (init tcs st))
            (init tcs st)))
          = nat (max 1 (min (case maxConcurrentToolCalls (executor cx) of None \<Rightarrow> 3 | Some m \<Rightarrow> m)
                            (int (length tcs))))
      \<and> length (running_calls (effects (executeTools cx st evs)))
          \<le> nat (max 1 (min (case maxConcurrentToolCalls (executor cx) of None \<Rightarrow> 3 | Some m \<Rightarrow> m)
                            (int (length tcs)))))
   \<and> (toolCalls (task cx) = Some tcs \<and> maxConcurrentToolCalls (executor cx) = None
        \<and> length tcs = 5 \<longrightarrow>
      length (workers (run cx evs (init tcs st))) \<le> 3
      \<and> length (running_calls (effects (executeTools cx st evs))) \<le> 3)
   \<and> ((\<forall>tc \<in> set tcs. status tc \<noteq> Running) \<longrightarrow>
        (\<forall>tc \<in> set (calls (run cx evs (init tcs st))). status tc \<noteq> Running))"
proof (intro conjI impI)
  assume t: "toolCalls (task cx) = Some tcs"
  let ?n = "nat (max 1 (min (case maxConcurrentToolCalls (executor cx) of None \<Rightarrow> 3 | Some m \<Rightarrow> m)
      (int (length tcs))))"
  from t show c: "callCount cx = length tcs" by (simp add: callCount_def)
  then show p: "poolSize cx = ?n" by (simp add: poolSize_def maxConcurrent_def)
  show "length (workers (run cx evs (init tcs st))) \<le> ?n"
    using wf_run[OF wf_init[of cx tcs st], of evs] p by (simp add: wf_def)
  have "quiescent cx (run cx (schedule cx env (2 * poolSize cx + 13 * length tcs) (init tcs st))
      (init tcs st))"
    by (rule schedule_quiescent[OF wf_init]) (simp add: potential_init)
  with p show "length (workers (run cx (schedule cx env (2 * poolSize cx + 13 * length tcs) (init tcs st))
      (init tcs st))) = ?n"
    by (simp add: quiescent_def)
  from running_run[of cx evs tcs st] t p
  show "length (running_calls (effects (executeTools cx st evs))) \<le> ?n"
    by (simp add: executeTools_def Let_def)
next
  assume a: "toolCalls (task cx) = Some tcs \<and> maxConcurrentToolCalls (executor cx) = None
     \<and> length tcs = 5"
  then have p: "poolSize cx = 3" by (simp add: poolSize_def maxConcurrent_def callCount_def)
  show "length (workers (run cx evs (init tcs st))) \<le> 3"
    using wf_run[OF wf_init[of cx tcs st], of evs] p by (simp add: wf_def)
  from running_run[of cx evs tcs st] a p
  show "length (running_calls (effects (executeTools cx st evs))) \<le> 3"
    by (simp add: executeTools_def Let_def)
next
  assume "\<forall>tc \<in> set tcs. status tc \<noteq> Running"
  then have "never_running (init tcs st)" by (simp add: never_running_def init_def)
  from never_running_run[OF this, of cx evs]
  show "\<forall>tc \<in> set (calls (run cx evs (init tcs st))). status tc \<noteq> Running"
    by (simp add: never_running_def)
qed

definition five_calls :: "ToolCallStatus list" where
  "five_calls = replicate 5 (demo_call ''get_news'')"

text \<open>The executor with \<^verbatim>\<open>maxConcurrentToolCalls\<close> set, on a task of \<open>n\<close> calls.\<close>

definition tuned_cx :: "int \<Rightarrow> nat \<Rightarrow> Invocation" where
  "tuned_cx m n =
     \<lparr>executor = demo_executor\<lparr>maxConcurrentToolCalls := Some m\<rparr>,
      task = demo_task (Some (replicate n (demo_call ''get_news''))), queryId = ''q-1'',
      callbacks = Some quiet_observers\<rparr>"

text \<open>The number of workers of the run that the schedule lets finish.\<close>

definition pool_of :: "Invocation \<Rightarrow> ToolCallStatus list \<Rightarrow> nat" where
  "pool_of cx tcs =
     length (workers (run cx (schedule cx always_ok (2 * poolSize cx + 13 * length tcs) (init tcs []))
       (init tcs [])))"

theorem executeTools_pool_bound_witness:
  "pool_of (demo_cx (Some five_calls)) five_calls = 3
   \<and> pool_of (demo_cx (Some [demo_call ''get_news''])) [demo_call ''get_news''] = 1
   \<and> pool_of (demo_cx (Some [])) [] = 1
   \<and> pool_of (tuned_cx 2 5) (replicate 5 (demo_call ''get_news'')) = 2
   \<and> pool_of (tuned_cx 10 5) (replicate 5 (demo_call ''get_news'')) = 5
   \<and> pool_of (tuned_cx 0 5) (replicate 5 (demo_call ''get_news'')) = 1
   \<and> running_calls (effects (executeTools (demo_cx (Some five_calls)) [] (replicate 12 Tick))) = [0, 1, 2]
   \<and> length (workers (run (demo_cx (Some five_calls)) (replicate 12 Tick) (init five_calls []))) \<le> 3
   \<and> length (running_calls (effects (executeTools (demo_cx (Some five_calls)) [] (replicate 12 Tick)))) \<le> 3
   \<and> list_all (\<lambda>tc. status tc \<noteq> Running)
        (calls (run (demo_cx (Some five_calls)) (replicate 12 Tick) (init five_calls [])))"
proof -
  let ?cx = "demo_cx (Some five_calls)"
  let ?one = "[demo_call ''get_news'']"
  let ?five = "replicate 5 (demo_call ''get_news'')"
  have size: "pool_of cx tcs
      = nat (max 1 (min (case maxConcurrentToolCalls (executor cx) of None \<Rightarrow> 3 | Some m \<Rightarrow> m)
                        (int (length tcs))))"
    if "toolCalls (task cx) = Some tcs" for cx tcs
    using executeTools_pool_bound[where cx = cx and tcs = tcs and env = always_ok and st = "[]"] that
    unfolding pool_of_def by blast
  have p5: "pool_of ?cx five_calls = 3"
    by (subst size) (simp_all add: demo_defs five_calls_def)
  have p1: "pool_of (demo_cx (Some ?one)) ?one = 1"
    by (subst size) (simp_all add: demo_defs)
  have p0: "pool_of (demo_cx (Some [])) [] = 1"
    by (subst size) (simp_all add: demo_defs)
  have t2: "pool_of (tuned_cx 2 5) ?five = 2"
    by (subst size) (simp_all add: tuned_cx_def demo_defs)
  have t10: "pool_of (tuned_cx 10 5) ?five = 5"
    by (subst size) (simp_all add: tuned_cx_def demo_defs)
  have t0: "pool_of (tuned_cx 0 5) ?five = 1"
    by (subst size) (simp_all add: tuned_cx_def demo_defs)
  have h: "toolCalls (task ?cx) = Some five_calls \<and> maxConcurrentToolCalls (executor ?cx) = None
      \<and> length five_calls = 5"
    by (simp add: demo_defs five_calls_def)
  have r: "running_calls (effects (executeTools ?cx [] (replicate 12 Tick))) = [0, 1, 2]"
    by code_simp
  from executeTools_pool_bound[where cx = ?cx and tcs = five_calls and st = "[]"
      and evs = "replicate 12 Tick"] h
  have w: "length (workers (run ?cx (replicate 12 Tick) (init five_calls []))) \<le> 3"
    and l: "length (running_calls (effects (executeTools ?cx [] (replicate 12 Tick)))) \<le> 3"
    by blast+
  have "\<forall>tc \<in> set five_calls. status tc \<noteq> Running"
    by (simp add: five_calls_def demo_defs)
  with executeTools_pool_bound[where cx = ?cx and evs = "replicate 12 Tick" and tcs = five_calls
      and st = "[]"]
  have "\<forall>tc \<in> set (calls (run ?cx (replicate 12 Tick) (init five_calls []))). status tc \<noteq> Running"
    by blast
  then have n: "list_all (\<lambda>tc. status tc \<noteq> Running)
        (calls (run ?cx (replicate 12 Tick) (init five_calls [])))"
    by (simp only: list_all_iff)
  from p5 p1 p0 t2 t10 t0 r w l n show ?thesis by (intro conjI)
qed

text \<open>
  Observers whose running notification throws, on a task of \<open>n\<close> calls of a registered
  capability, with \<^verbatim>\<open>maxConcurrentToolCalls\<close> as given.
\<close>

definition abrupt_cx :: "int option \<Rightarrow> nat \<Rightarrow> Invocation" where
  "abrupt_cx m n =
     \<lparr>executor = demo_executor\<lparr>maxConcurrentToolCalls := m\<rparr>,
      task = demo_task (Some (replicate n (demo_call ''get_news''))), queryId = ''q-1'',
      callbacks = Some
        \<lparr>onToolCallUpdate = Some (\<lambda>tid i st. if st = Running then Throws ''observer failed'' else Returns),
         onToolCallError = None\<rparr>\<rparr>"

text \<open>
  C1, the claim as stated fails: indices can be skipped. The running notification is
  called outside the \<^verbatim>\<open>try\<close>, so an observer that throws there ends the worker, which
  claims no further index. With one worker and two calls the index 1 is never claimed;
  with the default pool of three and five calls the indices 3 and 4 are never claimed.
  The schedule lets the program run as far as it goes.
\<close>

theorem claims_skipped_counterexample:
  "claimed (effects (executeTools (abrupt_cx (Some 1) 2) []
      (schedule (abrupt_cx (Some 1) 2) always_ok 30 (init (replicate 2 (demo_call ''get_news'')) []))))
     = [0]
   \<and> promise (executeTools (abrupt_cx (Some 1) 2) []
      (schedule (abrupt_cx (Some 1) 2) always_ok 30 (init (replicate 2 (demo_call ''get_news'')) [])))
     = RejectedWith (ObserverError ''observer failed'')
   \<and> workers (run (abrupt_cx (Some 1) 2)
        (schedule (abrupt_cx (Some 1) 2) always_ok 30 (init (replicate 2 (demo_call ''get_news'')) []))
        (init (replicate 2 (demo_call ''get_news'')) []))
     = [Rejected (ObserverError ''observer failed'')]
   \<and> claimed (effects (executeTools (abrupt_cx (Some 1) 2) [] (replicate 30 Tick))) = [0]
   \<and> claimed (effects (executeTools (abrupt_cx None 5) []
      (schedule (abrupt_cx None 5) always_ok 80 (init (replicate 5 (demo_call ''get_news'')) []))))
     = [0, 1, 2]
   \<and> attempts 0 (effects (executeTools (abrupt_cx None 5) []
      (schedule (abrupt_cx None 5) always_ok 80 (init (replicate 5 (demo_call ''get_news'')) []))))
     = []"
  by code_simp

text \<open>
  C1, amended. For every call list of size \<open>N\<close> and every pool size, at every point of
  every run of \<^verbatim>\<open>executeTools\<close> the indices claimed so far are \<open>0, 1, ..., k - 1\<close> in this
  order, for \<open>k = min counter N\<close>: no index is claimed twice and none below \<open>k\<close> is left
  out; claims are never undone and the counter never decreases; no invocation is
  repeated (the attempts of a call are pairwise different). Every index \<open>0 .. N - 1\<close> has
  been claimed exactly once, and every claimed call has had its status written, when the
  promise is resolved; every index has been claimed as soon as one worker has returned.
  With observers that return and an environment that answers every invocation the
  promise is resolved. A worker at the claim leaves when the counter has reached the
  length of the list, and takes the counter's value and increments it otherwise.
\<close>

theorem executeTools_claims:
  "(toolCalls (task cx) = Some tcs \<longrightarrow>
      (\<exists>k \<le> length tcs. claimed (effects (executeTools cx st evs)) = [0..<k])
      \<and> claimed (effects (executeTools cx st evs))
          = [0..<min (nextIndex (run cx evs (init tcs st))) (length tcs)]
      \<and> prefix (claimed (effects (executeTools cx st evs)))
           (claimed (effects (executeTools cx st (evs @ later))))
      \<and> nextIndex (run cx evs (init tcs st)) \<le> nextIndex (run cx (evs @ later) (init tcs st))
      \<and> distinct (attempts i (effects (executeTools cx st evs)))
      \<and> (promise (executeTools cx st evs) = Resolved b \<longrightarrow>
           claimed (effects (executeTools cx st evs)) = [0..<length tcs]
           \<and> running_calls (effects (executeTools cx st evs)) = [])
      \<and> (w < length (workers (run cx evs (init tcs st)))
           \<and> workers (run cx evs (init tcs st)) ! w = Returned \<longrightarrow>
           claimed (effects (executeTools cx st evs)) = [0..<length tcs])
      \<and> (observers_return cx \<longrightarrow>
           (\<exists>b. promise (executeTools cx st
              (schedule cx env (2 * poolSize cx + 13 * length tcs) (init tcs st))) = Resolved b)
           \<and> claimed (effects (executeTools cx st
              (schedule cx env (2 * poolSize cx + 13 * length tcs) (init tcs st)))) = [0..<length tcs]))
   \<and> (active s = Some w \<and> w < length (workers s) \<and> workers s ! w = AtClaim
        \<and> length (calls s) \<le> nextIndex s \<longrightarrow>
        workers (step cx Tick s) ! w = Returned \<and> log (step cx Tick s) = log s)
   \<and> (active s = Some w \<and> w < length (workers s) \<and> workers s ! w = AtClaim
        \<and> nextIndex s < length (calls s) \<longrightarrow>
        workers (step cx Tick s) ! w = AtRunningCb (nextIndex s)
        \<and> nextIndex (step cx Tick s) = Suc (nextIndex s)
        \<and> claimed (log (step cx Tick s)) = claimed (log s) @ [nextIndex s])"
proof (intro conjI impI)
  assume t: "toolCalls (task cx) = Some tcs"
  have eff: "effects (executeTools cx st es) = log (run cx es (init tcs st))" for es
    using t by (simp add: executeTools_def Let_def)
  have pro: "promise (executeTools cx st es) = promise_of cx (run cx es (init tcs st))" for es
    using t by (simp add: executeTools_def Let_def)
  show c: "claimed (effects (executeTools cx st evs))
      = [0..<min (nextIndex (run cx evs (init tcs st))) (length tcs)]"
    using claims_run[of tcs cx evs st] by (simp add: claims_ok_def eff)
  then show "\<exists>k \<le> length tcs. claimed (effects (executeTools cx st evs)) = [0..<k]"
    by (intro exI[of _ "min (nextIndex (run cx evs (init tcs st))) (length tcs)"]) simp
  show "prefix (claimed (effects (executeTools cx st evs)))
      (claimed (effects (executeTools cx st (evs @ later))))"
    by (simp only: eff claimed_grows)
  show "nextIndex (run cx evs (init tcs st)) \<le> nextIndex (run cx (evs @ later) (init tcs st))"
    using nextIndex_run[of "run cx evs (init tcs st)" cx later] by (simp add: run_append)
  show "distinct (attempts i (effects (executeTools cx st evs)))"
  proof -
    from tries_run[of cx evs tcs st]
    have "\<exists>j \<le> 3. attempts i (log (run cx evs (init tcs st))) = first_attempts j"
      by (simp add: tries_ok_def)
    then obtain j where "attempts i (log (run cx evs (init tcs st))) = first_attempts j"
      by blast
    then show ?thesis by (simp add: first_attempts_def eff)
  qed
  {
    assume "promise (executeTools cx st evs) = Resolved b"
    then have r: "promise_of cx (run cx evs (init tcs st)) = Resolved b" by (simp only: pro)
    from resolved_all_claimed[OF r]
    show "claimed (effects (executeTools cx st evs)) = [0..<length tcs]"
      and "running_calls (effects (executeTools cx st evs)) = []" by (simp_all only: eff)
  }
  {
    assume "w < length (workers (run cx evs (init tcs st)))
       \<and> workers (run cx evs (init tcs st)) ! w = Returned"
    then show "claimed (effects (executeTools cx st evs)) = [0..<length tcs]"
      using returned_all_claimed[of w cx evs tcs st] by (simp only: eff)
  }
  {
    assume o: "observers_return cx"
    let ?sch = "schedule cx env (2 * poolSize cx + 13 * length tcs) (init tcs st)"
    from quiet_schedule_resolves[OF o, of env tcs st]
    show "\<exists>b. promise (executeTools cx st ?sch) = Resolved b" by (simp only: pro) blast
    from resolved_all_claimed(1)[OF quiet_schedule_resolves[OF o]]
    show "claimed (effects (executeTools cx st ?sch)) = [0..<length tcs]" by (simp only: eff)
  }
next
  assume a: "active s = Some w \<and> w < length (workers s) \<and> workers s ! w = AtClaim
     \<and> length (calls s) \<le> nextIndex s"
  then show "workers (step cx Tick s) ! w = Returned" "log (step cx Tick s) = log s"
    by (simp_all add: tick_def exec_def Let_def)
next
  assume a: "active s = Some w \<and> w < length (workers s) \<and> workers s ! w = AtClaim
     \<and> nextIndex s < length (calls s)"
  then show "workers (step cx Tick s) ! w = AtRunningCb (nextIndex s)"
    "nextIndex (step cx Tick s) = Suc (nextIndex s)"
    "claimed (log (step cx Tick s)) = claimed (log s) @ [nextIndex s]"
    by (simp_all add: tick_def exec_def Let_def)
qed


definition five_cx :: Invocation where
  "five_cx = demo_cx (Some five_calls)"

definition five_schedule :: "event list" where
  "five_schedule = schedule five_cx always_ok (2 * poolSize five_cx + 13 * length five_calls) (init five_calls [])"

theorem executeTools_claims_witness:
  "promise (executeTools five_cx [] five_schedule) = Resolved True
   \<and> claimed (effects (executeTools five_cx [] five_schedule)) = [0, 1, 2, 3, 4]
   \<and> running_calls (effects (executeTools five_cx [] five_schedule)) = []
   \<and> claimed (effects (executeTools five_cx [] (replicate 12 Tick))) = [0, 1, 2]
   \<and> nextIndex (run five_cx (replicate 12 Tick) (init five_calls [])) = 3
   \<and> prefix [0, 1, 2] (claimed (effects (executeTools five_cx [] (replicate 12 Tick @ [Resolves 1 JNull, Tick, Tick, Tick]))))
   \<and> claimed (effects (executeTools five_cx [] (replicate 12 Tick @ [Resolves 1 JNull, Tick, Tick, Tick])))
      = [0, 1, 2, 3]
   \<and> workers (step five_cx Tick (step five_cx Tick (init five_calls []))) ! 0 = AtRunningCb 0
   \<and> workers (step (demo_cx (Some [])) Tick (step (demo_cx (Some [])) Tick (init [] []))) ! 0 = Returned
   \<and> claimed (effects (executeTools (demo_cx (Some [])) [] [Tick, Tick])) = []"
proof -
  let ?mid = "replicate 12 Tick"
  let ?more = "[Resolves 1 JNull, Tick, Tick, Tick]"
  have t: "toolCalls (task five_cx) = Some five_calls" by (simp add: five_cx_def demo_defs)
  have p: "promise (executeTools five_cx [] five_schedule) = Resolved True"
    by code_simp
  from executeTools_claims[where cx = five_cx and evs = five_schedule and tcs = five_calls
      and st = "[]" and b = True] t p
  have c: "claimed (effects (executeTools five_cx [] five_schedule)) = [0..<length five_calls]"
    and r: "running_calls (effects (executeTools five_cx [] five_schedule)) = []"
    by blast+
  have l: "[0..<length five_calls] = [0, 1, 2, 3, 4]" by code_simp
  have n: "nextIndex (run five_cx ?mid (init five_calls [])) = 3" by code_simp
  have m: "[0..<min 3 (length five_calls)] = [0, 1, 2]" by code_simp
  from executeTools_claims[where cx = five_cx and evs = ?mid and tcs = five_calls and st = "[]"
      and later = ?more] t
  have "claimed (effects (executeTools five_cx [] ?mid))
      = [0..<min (nextIndex (run five_cx ?mid (init five_calls []))) (length five_calls)]"
    and g: "prefix (claimed (effects (executeTools five_cx [] ?mid)))
      (claimed (effects (executeTools five_cx [] (?mid @ ?more))))"
    by blast+
  then have c3: "claimed (effects (executeTools five_cx [] ?mid)) = [0, 1, 2]"
    by (simp only: n m)
  from g have g3: "prefix [0, 1, 2] (claimed (effects (executeTools five_cx [] (?mid @ ?more))))"
    by (simp only: c3)
  have c4: "claimed (effects (executeTools five_cx [] (?mid @ ?more))) = [0, 1, 2, 3]"
    by code_simp
  let ?s1 = "step five_cx Tick (init five_calls [])"
  have a1: "active ?s1 = Some 0 \<and> 0 < length (workers ?s1) \<and> workers ?s1 ! 0 = AtClaim
      \<and> nextIndex ?s1 < length (calls ?s1)"
    by (simp add: five_cx_def five_calls_def demo_defs exec_defs)
  have n1: "nextIndex ?s1 = 0" by (simp add: five_cx_def five_calls_def demo_defs exec_defs)
  from executeTools_claims[where cx = five_cx and s = ?s1 and w = 0] a1 n1
  have w1: "workers (step five_cx Tick ?s1) ! 0 = AtRunningCb 0" by simp
  let ?e1 = "step (demo_cx (Some [])) Tick (init [] [])"
  have a2: "active ?e1 = Some 0 \<and> 0 < length (workers ?e1) \<and> workers ?e1 ! 0 = AtClaim
      \<and> length (calls ?e1) \<le> nextIndex ?e1"
    by (simp add: demo_defs exec_defs)
  from executeTools_claims[where cx = "demo_cx (Some [])" and s = ?e1 and w = 0] a2
  have w2: "workers (step (demo_cx (Some [])) Tick ?e1) ! 0 = Returned" by simp
  have te: "toolCalls (task (demo_cx (Some []))) = Some []" by (simp add: demo_defs)
  have re: "0 < length (workers (run (demo_cx (Some [])) [Tick, Tick] (init [] [])))
      \<and> workers (run (demo_cx (Some [])) [Tick, Tick] (init [] [])) ! 0 = Returned"
    by code_simp
  from executeTools_claims[where cx = "demo_cx (Some [])" and tcs = "[]" and st = "[]"
      and evs = "[Tick, Tick]" and w = 0] te re
  have "claimed (effects (executeTools (demo_cx (Some [])) [] [Tick, Tick])) = [0..<length ([] :: ToolCallStatus list)]"
    by blast
  then have ce: "claimed (effects (executeTools (demo_cx (Some [])) [] [Tick, Tick])) = []"
    by simp
  have o: "observers_return five_cx"
    by (simp add: observers_return_def observer_update_def observer_error_def five_cx_def demo_defs)
  from executeTools_claims[where cx = five_cx and env = always_ok and tcs = five_calls and st = "[]"] t o
  have "claimed (effects (executeTools five_cx [] five_schedule)) = [0..<length five_calls]"
    unfolding five_schedule_def by blast
  then have c5: "claimed (effects (executeTools five_cx [] five_schedule)) = [0, 1, 2, 3, 4]"
    by (simp only: l)
  from p c5 r c3 n g3 c4 w1 w2 ce show ?thesis by (intro conjI)
qed

text \<open>An observer that throws when told that a call is completed.\<close>

definition strict_observers :: ToolExecutorCallbacks where
  "strict_observers =
     \<lparr>onToolCallUpdate = Some (\<lambda>tid i st. if st = Completed then Throws ''display failed'' else Returns),
      onToolCallError = Some (\<lambda>tid i t a e. Returns)\<rparr>"

definition strict_cx :: Invocation where
  "strict_cx = \<lparr>executor = demo_executor, task = demo_task (Some [demo_call ''get_news'']),
     queryId = ''q-1'', callbacks = Some strict_observers\<rparr>"

text \<open>
  C7, the claim as stated fails: a claimed call whose running notification has been sent
  and whose capability has been invoked still has the status pending, since no statement
  assigns \<^verbatim>\<open>running\<close> to the field. And the completed notification is sent inside the
  \<^verbatim>\<open>try\<close>: when the observer throws there, the \<^verbatim>\<open>catch\<close> block writes failed over completed.
\<close>

theorem status_running_counterexample:
  "summary (executeTools news_cx [] [Tick, Tick, Tick, Tick]) = (Unsettled, [Pending], [1])
   \<and> effects (executeTools news_cx [] [Tick, Tick, Tick, Tick])
      = [Claimed 0 0, UpdateCb ''task-1'' 0 Running, Invoked 0 1]
   \<and> summary (executeTools strict_cx [] [Tick, Tick, Tick, Tick, Resolves 0 (JStr ''ok''), Tick])
      = (Unsettled, [Completed], [1])
   \<and> summary (executeTools strict_cx []
        [Tick, Tick, Tick, Tick, Resolves 0 (JStr ''ok''), Tick, Tick, Tick])
      = (Unsettled, [Failed], [1])"
  by code_simp

text \<open>
  C7, amended. The status of a call that starts pending is pending, completed or failed
  at every point of every run, whatever the observers do, never running: the running
  phase is announced by the notification alone, and no entry of the list
  \<^verbatim>\<open>executeTools\<close> leaves behind has the status running. While the observer returns from
  the completed notification, a status once written stays as it is for the rest of the
  run. In the trace of every run a
  completed or failed notification of a call comes after the running notification of the
  same call, and, when \<^verbatim>\<open>onToolCallUpdate\<close> is supplied, a call of \<^verbatim>\<open>onToolCallError\<close> comes
  immediately after the failed notification of the same call. The running notification is
  the statement after the claim; a capability missing from the registry leads to the
  \<^verbatim>\<open>catch\<close> block, which writes failed; a successful save writes completed.
\<close>

theorem call_lifecycle:
  "((\<forall>tc \<in> set tcs. status tc = Pending) \<and> i < length tcs \<longrightarrow>
       status (calls (run cx evs (init tcs st)) ! i) = Pending
       \<or> status (calls (run cx evs (init tcs st)) ! i) = Completed
       \<or> status (calls (run cx evs (init tcs st)) ! i) = Failed)
   \<and> (toolCalls (task cx) = Some tcs \<and> (\<forall>tc \<in> set tcs. status tc = Pending)
        \<and> toolCalls (task_after (executeTools cx st evs)) = Some cs \<longrightarrow>
       (\<forall>tc \<in> set cs. status tc = Pending \<or> status tc = Completed \<or> status tc = Failed))
   \<and> ((\<forall>tc \<in> set tcs. status tc = Pending) \<and> completed_returns cx \<and> i < length tcs
        \<and> status (calls (run cx evs (init tcs st)) ! i) \<noteq> Pending \<longrightarrow>
       status (calls (run cx (evs @ later) (init tcs st)) ! i)
         = status (calls (run cx evs (init tcs st)) ! i))
   \<and> running_first (effects (executeTools cx st evs))
   \<and> (observer_update cx \<noteq> None \<longrightarrow> failed_then_error (effects (executeTools cx st evs)))
   \<and> (active s = Some w \<and> workers s ! w = AtRunningCb j \<longrightarrow>
        calls (step cx Tick s) = calls s
        \<and> log (step cx Tick s) = log s @ update_note cx j Running)
   \<and> (active s = Some w \<and> workers s ! w = AtTry j
        \<and> toolMap_get (executor cx) (tool (calls s ! j)) = None \<longrightarrow>
        step cx Tick s = goto w (AtCatch j (ToolNotFound (tool (calls s ! j)))) s)
   \<and> (active s = Some w \<and> workers s ! w = AtCatch j err \<longrightarrow>
        step cx Tick s = goto w (AtFailedCb j err) (set_status j Failed (s\<lparr>allSucceeded := False\<rparr>)))
   \<and> (active s = Some w \<and> workers s ! w = AtSave j v
        \<and> contextManager (executor cx)
             \<lparr>entry_tool = tool (calls s ! j), entry_args = args (calls s ! j), entry_result = v,
              entry_queryId = queryId cx\<rparr> (store s) = Inr st' \<longrightarrow>
        step cx Tick s = goto w (AtCompletedCb j) (set_status j Completed (s\<lparr>store := st'\<rparr>)))"
proof (intro conjI impI)
  assume "(\<forall>tc \<in> set tcs. status tc = Pending) \<and> i < length tcs"
  then show "status (calls (run cx evs (init tcs st)) ! i) = Pending
        \<or> status (calls (run cx evs (init tcs st)) ! i) = Completed
        \<or> status (calls (run cx evs (init tcs st)) ! i) = Failed"
    using status_values[of tcs i cx evs st] by blast
next
  assume a: "toolCalls (task cx) = Some tcs \<and> (\<forall>tc \<in> set tcs. status tc = Pending)
     \<and> toolCalls (task_after (executeTools cx st evs)) = Some cs"
  then have cs: "cs = calls (run cx evs (init tcs st))"
    by (auto simp: executeTools_def Let_def)
  from a have "never_running (init tcs st)" by (simp add: never_running_def init_def)
  from never_running_run[OF this, of cx evs] cs
  have "\<forall>tc \<in> set cs. status tc \<noteq> Running" by (simp add: never_running_def)
  then show "\<forall>tc \<in> set cs. status tc = Pending \<or> status tc = Completed \<or> status tc = Failed"
    using status.exhaust by blast
next
  assume "(\<forall>tc \<in> set tcs. status tc = Pending) \<and> completed_returns cx \<and> i < length tcs
     \<and> status (calls (run cx evs (init tcs st)) ! i) \<noteq> Pending"
  then show "status (calls (run cx (evs @ later) (init tcs st)) ! i)
      = status (calls (run cx evs (init tcs st)) ! i)"
    using lifecycle_status[of tcs cx i evs st later] by blast
next
  show "running_first (effects (executeTools cx st evs))" by (rule effects_ordered(1))
next
  assume "observer_update cx \<noteq> None"
  then show "failed_then_error (effects (executeTools cx st evs))" by (rule effects_ordered(2))
next
  assume a: "active s = Some w \<and> workers s ! w = AtRunningCb j"
  then show "calls (step cx Tick s) = calls s"
    "log (step cx Tick s) = log s @ update_note cx j Running"
    by (simp_all add: tick_def exec_def fire_update_def update_note_def emit_def split: option.splits cb_result.splits)
next
  assume "active s = Some w \<and> workers s ! w = AtTry j
     \<and> toolMap_get (executor cx) (tool (calls s ! j)) = None"
  then show "step cx Tick s = goto w (AtCatch j (ToolNotFound (tool (calls s ! j)))) s"
    by (simp add: tick_def exec_def)
next
  assume "active s = Some w \<and> workers s ! w = AtCatch j err"
  then show "step cx Tick s
      = goto w (AtFailedCb j err) (set_status j Failed (s\<lparr>allSucceeded := False\<rparr>))"
    by (simp add: tick_def exec_def)
next
  assume "active s = Some w \<and> workers s ! w = AtSave j v
     \<and> contextManager (executor cx)
          \<lparr>entry_tool = tool (calls s ! j), entry_args = args (calls s ! j), entry_result = v,
           entry_queryId = queryId cx\<rparr> (store s) = Inr st'"
  then show "step cx Tick s
      = goto w (AtCompletedCb j) (set_status j Completed (s\<lparr>store := st'\<rparr>))"
    by (simp add: tick_def exec_def Let_def)
qed


definition mixed_cx :: Invocation where
  "mixed_cx = demo_cx (Some mixed_calls)"

text \<open>
  Two workers: the first invokes \<^verbatim>\<open>get_news\<close> and waits, the second finds no \<^verbatim>\<open>get_prices\<close>,
  fails its call and leaves; then the invocation of the first is answered.
\<close>

definition mixed_schedule :: "event list" where
  "mixed_schedule =
     [Tick, Tick, Tick, Tick, Tick, Tick, Tick, Tick, Tick, Tick, Tick, Tick,
      Resolves 0 (JStr ''ok''), Tick, Tick, Tick]"

theorem call_lifecycle_witness:
  "map status (calls (run mixed_cx mixed_schedule (init mixed_calls []))) = [Completed, Failed]
   \<and> status (calls (run mixed_cx (mixed_schedule @ [Tick, Tick]) (init mixed_calls [])) ! 0) = Completed
   \<and> status (calls (run mixed_cx (mixed_schedule @ [Tick, Tick]) (init mixed_calls [])) ! 1) = Failed
   \<and> running_first (effects (executeTools mixed_cx [] mixed_schedule))
   \<and> failed_then_error (effects (executeTools mixed_cx [] mixed_schedule))
   \<and> effects (executeTools mixed_cx [] mixed_schedule)
      = [Claimed 0 0, UpdateCb ''task-1'' 0 Running, Invoked 0 1,
         Claimed 1 1, UpdateCb ''task-1'' 1 Running, StatusSet 1 Failed,
         UpdateCb ''task-1'' 1 Failed,
         ErrorCb ''task-1'' 1 (JStr ''get_prices'') (JObj [(''ticker'', JStr ''AAPL'')])
           (ToolNotFound (JStr ''get_prices'')),
         StatusSet 0 Completed, UpdateCb ''task-1'' 0 Completed]
   \<and> log (run mixed_cx (take 3 mixed_schedule) (init mixed_calls []))
      = [Claimed 0 0, UpdateCb ''task-1'' 0 Running]
   \<and> workers (run mixed_cx (take 8 mixed_schedule) (init mixed_calls []))
      = [Awaiting 0 1, AtCatch 1 (ToolNotFound (JStr ''get_prices''))]
   \<and> map status (calls (run mixed_cx (take 9 mixed_schedule) (init mixed_calls []))) = [Pending, Failed]
   \<and> map status (calls (run mixed_cx (take 14 mixed_schedule) (init mixed_calls []))) = [Completed, Failed]
   \<and> toolCalls (task_after (executeTools strict_cx []
        [Tick, Tick, Tick, Tick, Resolves 0 (JStr ''ok''), Tick, Tick, Tick]))
      = Some [\<lparr>tool = JStr ''get_news'', args = JObj [(''ticker'', JStr ''AAPL'')], status = Failed\<rparr>]
   \<and> list_all (\<lambda>tc. status tc = Pending \<or> status tc = Completed \<or> status tc = Failed)
        [\<lparr>tool = JStr ''get_news'', args = JObj [(''ticker'', JStr ''AAPL'')], status = Failed\<rparr>]
   \<and> status (calls (run strict_cx [Tick, Tick, Tick, Tick, Resolves 0 (JStr ''ok''), Tick, Tick, Tick]
        (init [demo_call ''get_news''] [])) ! 0) = Failed"
proof -
  let ?i = "init mixed_calls []"
  let ?strict = "[Tick, Tick, Tick, Tick, Resolves 0 (JStr ''ok''), Tick, Tick, Tick]"
  let ?left = "[\<lparr>tool = JStr ''get_news'', args = JObj [(''ticker'', JStr ''AAPL'')], status = Failed\<rparr>]"
  have sh: "toolCalls (task strict_cx) = Some [demo_call ''get_news'']
      \<and> (\<forall>tc \<in> set [demo_call ''get_news'']. status tc = Pending)"
    by (simp add: strict_cx_def demo_defs)
  have st: "toolCalls (task_after (executeTools strict_cx [] ?strict)) = Some ?left"
    by code_simp
  from call_lifecycle[where cx = strict_cx and tcs = "[demo_call ''get_news'']" and st = "[]"
      and evs = ?strict and cs = ?left] sh st
  have "\<forall>tc \<in> set ?left. status tc = Pending \<or> status tc = Completed \<or> status tc = Failed"
    by blast
  then have sl: "list_all (\<lambda>tc. status tc = Pending \<or> status tc = Completed \<or> status tc = Failed) ?left"
    by (simp only: list_all_iff)
  have sp: "(\<forall>tc \<in> set [demo_call ''get_news'']. status tc = Pending) \<and> 0 < length [demo_call ''get_news'']"
    by (simp add: demo_defs)
  have "status (calls (run strict_cx ?strict (init [demo_call ''get_news''] [])) ! 0) \<noteq> Pending"
    and "status (calls (run strict_cx ?strict (init [demo_call ''get_news''] [])) ! 0) \<noteq> Completed"
    by code_simp+
  with call_lifecycle[where cx = strict_cx and tcs = "[demo_call ''get_news'']" and st = "[]"
      and evs = ?strict and i = 0] sp
  have sf: "status (calls (run strict_cx ?strict (init [demo_call ''get_news''] [])) ! 0) = Failed"
    by blast
  let ?end = "run mixed_cx mixed_schedule ?i"
  have h: "\<And>k. k < 2 \<Longrightarrow>
      (\<forall>tc \<in> set mixed_calls. status tc = Pending) \<and> completed_returns mixed_cx \<and> k < length mixed_calls"
    by (simp add: completed_returns_def observer_update_def mixed_cx_def mixed_calls_def demo_defs)
  have e: "map status (calls ?end) = [Completed, Failed]" by code_simp
  have e0: "status (calls ?end ! 0) = Completed" and e1: "status (calls ?end ! 1) = Failed"
    by code_simp+
  from call_lifecycle[where tcs = mixed_calls and cx = mixed_cx and i = 0 and evs = mixed_schedule
      and st = "[]" and later = "[Tick, Tick]"] h[of 0] e0
  have l0: "status (calls (run mixed_cx (mixed_schedule @ [Tick, Tick]) ?i) ! 0) = Completed"
    by simp
  from call_lifecycle[where tcs = mixed_calls and cx = mixed_cx and i = 1 and evs = mixed_schedule
      and st = "[]" and later = "[Tick, Tick]"] h[of 1] e1
  have l1: "status (calls (run mixed_cx (mixed_schedule @ [Tick, Tick]) ?i) ! 1) = Failed"
    by simp
  have o: "observer_update mixed_cx \<noteq> None"
    by (simp add: observer_update_def mixed_cx_def demo_defs)
  from call_lifecycle[where cx = mixed_cx and st = "[]" and evs = mixed_schedule] o
  have rf: "running_first (effects (executeTools mixed_cx [] mixed_schedule))"
    and fe: "failed_then_error (effects (executeTools mixed_cx [] mixed_schedule))"
    by blast+
  have ef: "effects (executeTools mixed_cx [] mixed_schedule)
      = [Claimed 0 0, UpdateCb ''task-1'' 0 Running, Invoked 0 1,
         Claimed 1 1, UpdateCb ''task-1'' 1 Running, StatusSet 1 Failed,
         UpdateCb ''task-1'' 1 Failed,
         ErrorCb ''task-1'' 1 (JStr ''get_prices'') (JObj [(''ticker'', JStr ''AAPL'')])
           (ToolNotFound (JStr ''get_prices'')),
         StatusSet 0 Completed, UpdateCb ''task-1'' 0 Completed]"
    by code_simp
  let ?a = "run mixed_cx (take 2 mixed_schedule) ?i"
  have a: "active ?a = Some 0 \<and> workers ?a ! 0 = AtRunningCb 0" by code_simp
  have la: "log ?a = [Claimed 0 0]" by code_simp
  have na: "update_note mixed_cx 0 Running = [UpdateCb ''task-1'' 0 Running]" by code_simp
  have ta: "run mixed_cx (take 3 mixed_schedule) ?i = step mixed_cx Tick ?a" by code_simp
  from call_lifecycle[where cx = mixed_cx and s = ?a and w = 0 and j = 0] a
  have "log (step mixed_cx Tick ?a) = log ?a @ update_note mixed_cx 0 Running" by blast
  then have ra: "log (run mixed_cx (take 3 mixed_schedule) ?i)
      = [Claimed 0 0, UpdateCb ''task-1'' 0 Running]"
    by (simp only: ta la na, simp)
  let ?b = "run mixed_cx (take 7 mixed_schedule) ?i"
  have b: "active ?b = Some 1 \<and> workers ?b ! 1 = AtTry 1
      \<and> toolMap_get (executor mixed_cx) (tool (calls ?b ! 1)) = None"
    by code_simp
  have tb: "run mixed_cx (take 8 mixed_schedule) ?i = step mixed_cx Tick ?b" by code_simp
  have gb: "workers (goto 1 (AtCatch 1 (ToolNotFound (tool (calls ?b ! 1)))) ?b)
      = [Awaiting 0 1, AtCatch 1 (ToolNotFound (JStr ''get_prices''))]"
    by code_simp
  from call_lifecycle[where cx = mixed_cx and s = ?b and w = 1 and j = 1] b
  have "step mixed_cx Tick ?b = goto 1 (AtCatch 1 (ToolNotFound (tool (calls ?b ! 1)))) ?b"
    by blast
  then have rb: "workers (run mixed_cx (take 8 mixed_schedule) ?i)
      = [Awaiting 0 1, AtCatch 1 (ToolNotFound (JStr ''get_prices''))]"
    by (simp only: tb gb)
  let ?c = "run mixed_cx (take 8 mixed_schedule) ?i"
  have c: "active ?c = Some 1 \<and> workers ?c ! 1 = AtCatch 1 (ToolNotFound (JStr ''get_prices''))"
    by code_simp
  have tc: "run mixed_cx (take 9 mixed_schedule) ?i = step mixed_cx Tick ?c" by code_simp
  have gc: "map status (calls (goto 1 (AtFailedCb 1 (ToolNotFound (JStr ''get_prices'')))
      (set_status 1 Failed (?c\<lparr>allSucceeded := False\<rparr>)))) = [Pending, Failed]"
    by code_simp
  from call_lifecycle[where cx = mixed_cx and s = ?c and w = 1 and j = 1
      and err = "ToolNotFound (JStr ''get_prices'')"] c
  have "step mixed_cx Tick ?c = goto 1 (AtFailedCb 1 (ToolNotFound (JStr ''get_prices'')))
      (set_status 1 Failed (?c\<lparr>allSucceeded := False\<rparr>))"
    by blast
  then have rc: "map status (calls (run mixed_cx (take 9 mixed_schedule) ?i)) = [Pending, Failed]"
    by (simp only: tc gc)
  let ?d = "run mixed_cx (take 13 mixed_schedule) ?i"
  let ?st = "[\<lparr>entry_tool = JStr ''get_news'', entry_args = JObj [(''ticker'', JStr ''AAPL'')],
      entry_result = JStr ''ok'', entry_queryId = ''q-1''\<rparr>]"
  have d: "active ?d = Some 0 \<and> workers ?d ! 0 = AtSave 0 (JStr ''ok'')
      \<and> contextManager (executor mixed_cx)
           \<lparr>entry_tool = tool (calls ?d ! 0), entry_args = args (calls ?d ! 0),
            entry_result = JStr ''ok'', entry_queryId = queryId mixed_cx\<rparr> (store ?d) = Inr ?st"
    by code_simp
  have td: "run mixed_cx (take 14 mixed_schedule) ?i = step mixed_cx Tick ?d" by code_simp
  have gd: "map status (calls (goto 0 (AtCompletedCb 0)
      (set_status 0 Completed (?d\<lparr>store := ?st\<rparr>)))) = [Completed, Failed]"
    by code_simp
  from call_lifecycle[where cx = mixed_cx and s = ?d and w = 0 and j = 0 and v = "JStr ''ok''"
      and st' = ?st] d
  have "step mixed_cx Tick ?d = goto 0 (AtCompletedCb 0) (set_status 0 Completed (?d\<lparr>store := ?st\<rparr>))"
    by blast
  then have rd: "map status (calls (run mixed_cx (take 14 mixed_schedule) ?i)) = [Completed, Failed]"
    by (simp only: td gd)
  from e l0 l1 rf fe ef ra rb rc rd st sl sf show ?thesis by (intro conjI)
qed

text \<open>
  Observers that return, but for one notification where a throw is made: the update with
  the given status, or the error notification for \<open>None\<close>. The task has one call, of the
  capability named.
\<close>

definition throws_at :: "status option \<Rightarrow> string \<Rightarrow> Invocation" where
  "throws_at bad n =
     \<lparr>executor = demo_executor, task = demo_task (Some [demo_call n]), queryId = ''q-1'',
      callbacks = Some
        \<lparr>onToolCallUpdate = Some (\<lambda>tid i st. if bad = Some st then Throws ''observer failed'' else Returns),
         onToolCallError = Some (\<lambda>tid i t a e. if bad = None then Throws ''observer failed'' else Returns)\<rparr>\<rparr>"

text \<open>
  C8, the claim as stated fails: no notification is isolated. An observer that throws at
  the running notification ends the worker before the capability is invoked, and
  \<^verbatim>\<open>executeTools\<close> rejects with the observer's exception; the same holds at the failed
  notification and at the error notification.
\<close>

theorem observer_throw_counterexample:
  "promise (executeTools (throws_at (Some Running) ''get_news'') [] [Tick, Tick, Tick])
     = RejectedWith (ObserverError ''observer failed'')
   \<and> workers (run (throws_at (Some Running) ''get_news'') [Tick, Tick, Tick] (init [demo_call ''get_news''] []))
     = [Rejected (ObserverError ''observer failed'')]
   \<and> effects (executeTools (throws_at (Some Running) ''get_news'') [] [Tick, Tick, Tick])
     = [Claimed 0 0, UpdateCb ''task-1'' 0 Running]
   \<and> promise (executeTools (throws_at (Some Failed) ''get_prices'') [] [Tick, Tick, Tick, Tick, Tick, Tick])
     = RejectedWith (ObserverError ''observer failed'')
   \<and> promise (executeTools (throws_at None ''get_prices'') [] [Tick, Tick, Tick, Tick, Tick, Tick, Tick])
     = RejectedWith (ObserverError ''observer failed'')"
  by code_simp


text \<open>
  C8, amended. Notifications are plain synchronous calls, not isolated from the worker.
  With observers that return, no worker ends with an exception and \<^verbatim>\<open>executeTools\<close> is
  never rejected. A worker that has ended with an exception did so with an observer's
  exception, and from then on \<^verbatim>\<open>executeTools\<close> is rejected with an observer's exception.
  An observer that throws at the running notification, at the failed notification or at
  the error notification ends its worker with that exception; one that throws at the
  completed notification sends its worker to the \<^verbatim>\<open>catch\<close> block with that exception, as if
  the call had failed.
\<close>

theorem observer_throw_propagates:
  "(observers_return cx \<and> w < length (workers (run cx evs (init tcs st))) \<longrightarrow>
      workers (run cx evs (init tcs st)) ! w \<noteq> Rejected e
      \<and> promise_of cx (run cx evs (init tcs st)) \<noteq> RejectedWith e)
   \<and> (w < length (workers (run cx evs (init tcs st)))
        \<and> workers (run cx evs (init tcs st)) ! w = Rejected e \<longrightarrow>
      (\<exists>m. e = ObserverError m)
      \<and> (\<exists>m. promise_of cx (run cx (evs @ later) (init tcs st)) = RejectedWith (ObserverError m)))
   \<and> (active s = Some w \<and> workers s ! w = AtRunningCb j
        \<and> observer_update cx = Some f \<and> f (task_id (task cx)) j Running = Throws m \<longrightarrow>
      step cx Tick s
        = goto w (Rejected (ObserverError m)) (emit (UpdateCb (task_id (task cx)) j Running) s))
   \<and> (active s = Some w \<and> workers s ! w = AtFailedCb j err
        \<and> observer_update cx = Some f \<and> f (task_id (task cx)) j Failed = Throws m \<longrightarrow>
      step cx Tick s
        = goto w (Rejected (ObserverError m)) (emit (UpdateCb (task_id (task cx)) j Failed) s))
   \<and> (active s = Some w \<and> workers s ! w = AtErrorCb j err \<and> observer_error cx = Some g
        \<and> g (task_id (task cx)) j (tool (calls s ! j)) (args (calls s ! j)) err = Throws m \<longrightarrow>
      step cx Tick s
        = goto w (Rejected (ObserverError m))
            (emit (ErrorCb (task_id (task cx)) j (tool (calls s ! j)) (args (calls s ! j)) err) s))
   \<and> (active s = Some w \<and> workers s ! w = AtCompletedCb j
        \<and> observer_update cx = Some f \<and> f (task_id (task cx)) j Completed = Throws m \<longrightarrow>
      step cx Tick s
        = goto w (AtCatch j (ObserverError m)) (emit (UpdateCb (task_id (task cx)) j Completed) s))"
proof (intro conjI impI)
  assume a: "observers_return cx \<and> w < length (workers (run cx evs (init tcs st)))"
  then show "workers (run cx evs (init tcs st)) ! w \<noteq> Rejected e"
    using quiet_workers(1)[of cx w evs tcs st e] by blast
  from a show "promise_of cx (run cx evs (init tcs st)) \<noteq> RejectedWith e"
    using quiet_workers(2)[of cx w evs tcs st e] by blast
next
  assume a: "w < length (workers (run cx evs (init tcs st)))
     \<and> workers (run cx evs (init tcs st)) ! w = Rejected e"
  then show "\<exists>m. e = ObserverError m"
    using rejected_worker(1)[of w cx evs tcs st e] by blast
  from a show "\<exists>m. promise_of cx (run cx (evs @ later) (init tcs st)) = RejectedWith (ObserverError m)"
    using rejected_worker(2)[of w cx evs tcs st e later] by blast
next
  assume "active s = Some w \<and> workers s ! w = AtRunningCb j
     \<and> observer_update cx = Some f \<and> f (task_id (task cx)) j Running = Throws m"
  then show "step cx Tick s
      = goto w (Rejected (ObserverError m)) (emit (UpdateCb (task_id (task cx)) j Running) s)"
    by (simp add: tick_def exec_def fire_update_def)
next
  assume "active s = Some w \<and> workers s ! w = AtFailedCb j err
     \<and> observer_update cx = Some f \<and> f (task_id (task cx)) j Failed = Throws m"
  then show "step cx Tick s
      = goto w (Rejected (ObserverError m)) (emit (UpdateCb (task_id (task cx)) j Failed) s)"
    by (simp add: tick_def exec_def fire_update_def)
next
  assume "active s = Some w \<and> workers s ! w = AtErrorCb j err \<and> observer_error cx = Some g
     \<and> g (task_id (task cx)) j (tool (calls s ! j)) (args (calls s ! j)) err = Throws m"
  then show "step cx Tick s
      = goto w (Rejected (ObserverError m))
          (emit (ErrorCb (task_id (task cx)) j (tool (calls s ! j)) (args (calls s ! j)) err) s)"
    by (simp add: tick_def exec_def fire_error_def Let_def)
next
  assume "active s = Some w \<and> workers s ! w = AtCompletedCb j
     \<and> observer_update cx = Some f \<and> f (task_id (task cx)) j Completed = Throws m"
  then show "step cx Tick s
      = goto w (AtCatch j (ObserverError m)) (emit (UpdateCb (task_id (task cx)) j Completed) s)"
    by (simp add: tick_def exec_def fire_update_def)
qed


theorem observer_throw_propagates_witness:
  "observers_return (demo_cx (Some [demo_call ''get_news'']))
   \<and> workers (run (demo_cx (Some [demo_call ''get_news'']))
        [Tick, Tick, Tick, Tick, Resolves 0 (JStr ''ok''), Tick, Tick, Tick]
        (init [demo_call ''get_news''] [])) ! 0 \<noteq> Rejected (ObserverError ''observer failed'')
   \<and> promise_of (demo_cx (Some [demo_call ''get_news'']))
        (run (demo_cx (Some [demo_call ''get_news'']))
          [Tick, Tick, Tick, Tick, Resolves 0 (JStr ''ok''), Tick, Tick, Tick]
          (init [demo_call ''get_news''] [])) \<noteq> RejectedWith (ObserverError ''observer failed'')
   \<and> workers (run (throws_at (Some Running) ''get_news'') [Tick, Tick, Tick]
        (init [demo_call ''get_news''] []))
      = [Rejected (ObserverError ''observer failed'')]
   \<and> (\<exists>m. promise_of (throws_at (Some Running) ''get_news'')
          (run (throws_at (Some Running) ''get_news'') ([Tick, Tick, Tick] @ [Tick, Tick])
            (init [demo_call ''get_news''] [])) = RejectedWith (ObserverError m))
   \<and> workers (run (throws_at (Some Failed) ''get_prices'') [Tick, Tick, Tick, Tick, Tick, Tick]
        (init [demo_call ''get_prices''] []))
      = [Rejected (ObserverError ''observer failed'')]
   \<and> workers (run (throws_at None ''get_prices'') [Tick, Tick, Tick, Tick, Tick, Tick, Tick]
        (init [demo_call ''get_prices''] []))
      = [Rejected (ObserverError ''observer failed'')]
   \<and> workers (run (throws_at (Some Completed) ''get_news'')
        [Tick, Tick, Tick, Tick, Resolves 0 (JStr ''ok''), Tick, Tick]
        (init [demo_call ''get_news''] []))
      = [AtCatch 0 (ObserverError ''observer failed'')]"
proof -
  let ?news = "init [demo_call ''get_news''] []"
  let ?prices = "init [demo_call ''get_prices''] []"
  let ?thrown = "ObserverError ''observer failed''"
  let ?cq = "demo_cx (Some [demo_call ''get_news''])"
  let ?q = "run ?cq [Tick, Tick, Tick, Tick, Resolves 0 (JStr ''ok''), Tick, Tick, Tick] ?news"
  have o: "observers_return ?cq"
    by (simp add: observers_return_def observer_update_def observer_error_def demo_defs)
  have lq: "0 < length (workers ?q)" by code_simp
  from observer_throw_propagates[where cx = ?cq and w = 0 and tcs = "[demo_call ''get_news'']"
      and st = "[]" and e = ?thrown
      and evs = "[Tick, Tick, Tick, Tick, Resolves 0 (JStr ''ok''), Tick, Tick, Tick]"] o lq
  have q: "workers ?q ! 0 \<noteq> Rejected ?thrown" "promise_of ?cq ?q \<noteq> RejectedWith ?thrown"
    by blast+
  let ?cr = "throws_at (Some Running) ''get_news''"
  let ?r = "run ?cr [Tick, Tick] ?news"
  let ?fr = "\<lambda>(tid :: string) (i :: nat) st. if Some Running = Some st then Throws ''observer failed'' else Returns"
  have r: "active ?r = Some 0 \<and> workers ?r ! 0 = AtRunningCb 0
      \<and> observer_update ?cr = Some ?fr \<and> ?fr (task_id (task ?cr)) 0 Running = Throws ''observer failed''"
    by (simp add: throws_at_def demo_defs exec_defs)
  have tr: "run ?cr [Tick, Tick, Tick] ?news = step ?cr Tick ?r" by simp
  have gr: "workers (goto 0 (Rejected ?thrown) (emit (UpdateCb (task_id (task ?cr)) 0 Running) ?r))
      = [Rejected ?thrown]"
    by code_simp
  from observer_throw_propagates[where cx = ?cr and s = ?r and w = 0 and j = 0 and f = ?fr
      and m = "''observer failed''"] r
  have "step ?cr Tick ?r = goto 0 (Rejected ?thrown) (emit (UpdateCb (task_id (task ?cr)) 0 Running) ?r)"
    by blast
  then have wr: "workers (run ?cr [Tick, Tick, Tick] ?news) = [Rejected ?thrown]"
    by (simp only: tr gr)
  then have ar: "0 < length (workers (run ?cr [Tick, Tick, Tick] ?news))
      \<and> workers (run ?cr [Tick, Tick, Tick] ?news) ! 0 = Rejected ?thrown"
    by (simp only:, simp)
  from observer_throw_propagates[where cx = ?cr and w = 0 and tcs = "[demo_call ''get_news'']"
      and st = "[]" and e = ?thrown and evs = "[Tick, Tick, Tick]" and later = "[Tick, Tick]"] ar
  have pr: "\<exists>m. promise_of ?cr (run ?cr ([Tick, Tick, Tick] @ [Tick, Tick]) ?news)
      = RejectedWith (ObserverError m)"
    by blast
  let ?cf = "throws_at (Some Failed) ''get_prices''"
  let ?f = "run ?cf [Tick, Tick, Tick, Tick, Tick] ?prices"
  let ?ff = "\<lambda>(tid :: string) (i :: nat) st. if Some Failed = Some st then Throws ''observer failed'' else Returns"
  let ?nf = "ToolNotFound (JStr ''get_prices'')"
  have f: "active ?f = Some 0 \<and> workers ?f ! 0 = AtFailedCb 0 ?nf
      \<and> observer_update ?cf = Some ?ff \<and> ?ff (task_id (task ?cf)) 0 Failed = Throws ''observer failed''"
    by (simp add: throws_at_def demo_defs exec_defs)
  have tf: "run ?cf [Tick, Tick, Tick, Tick, Tick, Tick] ?prices = step ?cf Tick ?f" by simp
  have gf: "workers (goto 0 (Rejected ?thrown) (emit (UpdateCb (task_id (task ?cf)) 0 Failed) ?f))
      = [Rejected ?thrown]"
    by code_simp
  from observer_throw_propagates[where cx = ?cf and s = ?f and w = 0 and j = 0 and f = ?ff
      and m = "''observer failed''" and err = ?nf] f
  have "step ?cf Tick ?f = goto 0 (Rejected ?thrown) (emit (UpdateCb (task_id (task ?cf)) 0 Failed) ?f)"
    by blast
  then have wt: "workers (run ?cf [Tick, Tick, Tick, Tick, Tick, Tick] ?prices) = [Rejected ?thrown]"
    by (simp only: tf gf)
  let ?ce = "throws_at None ''get_prices''"
  let ?e = "run ?ce [Tick, Tick, Tick, Tick, Tick, Tick] ?prices"
  let ?ge = "\<lambda>(tid :: string) (i :: nat) (t :: jsval) (a :: jsval) (e :: error).
      if (None :: status option) = None then Throws ''observer failed'' else Returns"
  have e: "active ?e = Some 0 \<and> workers ?e ! 0 = AtErrorCb 0 ?nf \<and> observer_error ?ce = Some ?ge
      \<and> ?ge (task_id (task ?ce)) 0 (tool (calls ?e ! 0)) (args (calls ?e ! 0)) ?nf
          = Throws ''observer failed''"
    by (simp add: throws_at_def demo_defs exec_defs)
  have te: "run ?ce [Tick, Tick, Tick, Tick, Tick, Tick, Tick] ?prices = step ?ce Tick ?e" by simp
  have ge: "workers (goto 0 (Rejected ?thrown)
      (emit (ErrorCb (task_id (task ?ce)) 0 (tool (calls ?e ! 0)) (args (calls ?e ! 0)) ?nf) ?e))
      = [Rejected ?thrown]"
    by code_simp
  from observer_throw_propagates[where cx = ?ce and s = ?e and w = 0 and j = 0 and g = ?ge
      and m = "''observer failed''" and err = ?nf] e
  have "step ?ce Tick ?e = goto 0 (Rejected ?thrown)
      (emit (ErrorCb (task_id (task ?ce)) 0 (tool (calls ?e ! 0)) (args (calls ?e ! 0)) ?nf) ?e)"
    by blast
  then have we: "workers (run ?ce [Tick, Tick, Tick, Tick, Tick, Tick, Tick] ?prices) = [Rejected ?thrown]"
    by (simp only: te ge)
  let ?cc = "throws_at (Some Completed) ''get_news''"
  let ?c = "run ?cc [Tick, Tick, Tick, Tick, Resolves 0 (JStr ''ok''), Tick] ?news"
  let ?fc = "\<lambda>(tid :: string) (i :: nat) st. if Some Completed = Some st then Throws ''observer failed'' else Returns"
  have c: "active ?c = Some 0 \<and> workers ?c ! 0 = AtCompletedCb 0
      \<and> observer_update ?cc = Some ?fc \<and> ?fc (task_id (task ?cc)) 0 Completed = Throws ''observer failed''"
    by (simp add: throws_at_def demo_defs exec_defs)
  have tc: "run ?cc [Tick, Tick, Tick, Tick, Resolves 0 (JStr ''ok''), Tick, Tick] ?news
      = step ?cc Tick ?c" by simp
  have gc: "workers (goto 0 (AtCatch 0 ?thrown) (emit (UpdateCb (task_id (task ?cc)) 0 Completed) ?c))
      = [AtCatch 0 ?thrown]"
    by code_simp
  from observer_throw_propagates[where cx = ?cc and s = ?c and w = 0 and j = 0 and f = ?fc
      and m = "''observer failed''"] c
  have "step ?cc Tick ?c = goto 0 (AtCatch 0 ?thrown) (emit (UpdateCb (task_id (task ?cc)) 0 Completed) ?c)"
    by blast
  then have wc: "workers (run ?cc [Tick, Tick, Tick, Tick, Resolves 0 (JStr ''ok''), Tick, Tick] ?news)
      = [AtCatch 0 ?thrown]"
    by (simp only: tc gc)
  from o q wr pr wt we wc show ?thesis by (intro conjI)
qed

end
